theory Spec2Isabelle
  imports Complex_Main "HOL-Library.Log_Nat"
begin

section \<open>Numbers and configurations of the presentation layer\<close>

text \<open>
  What a call can throw: the two failures the specification names for the engine, and the
  \<^verbatim>\<open>TypeError\<close> of reading a property of \<^verbatim>\<open>undefined\<close> (a cell that does not exist) or of
  converting a value that has no number (\<^verbatim>\<open>Number\<close> of a \<^verbatim>\<open>Symbol\<close>).
\<close>

datatype error = InvalidDimension | InfeasibleMineCount | TypeError

text \<open>
  A JavaScript number: a finite value, \<^verbatim>\<open>NaN\<close> or one of the two infinities. A finite
  double is its exact value, a rational number; the session stores integers.
\<close>

datatype 'n jsnum = Fin 'n | NaN | PosInf | NegInf

text \<open>
  The two arithmetic operations the code applies to finite numbers, \<^verbatim>\<open>*\<close> and \<^verbatim>\<open>-\<close>. They
  are those of IEEE 754 doubles, which round; the functions below take them as an argument,
  so that one translation serves the doubles and the integers of the session.
\<close>

record 'n arith =
  mulOp :: "'n \<Rightarrow> 'n \<Rightarrow> 'n"
  subOp :: "'n \<Rightarrow> 'n \<Rightarrow> 'n"

text \<open>
  Rounding to a double: to the nearest number with 53 significant bits, a tie going to the
  even one. \<open>binExp x\<close> is the binary exponent of \<open>x\<close>, the integer part of its logarithm to
  base 2. Overflow and subnormal numbers are left out (the exponent is not bounded): the
  results the code takes, between 16 and 1200, are far from both.
\<close>

definition pow2 :: "int \<Rightarrow> rat" where
  "pow2 e = (if 0 \<le> e then 2 ^ nat e else 1 / 2 ^ nat (- e))"

definition binExp :: "rat \<Rightarrow> int" where
  "binExp x =
     (let (p, q) = quotient_of \<bar>x\<bar>;
          e = bitlen p - bitlen q
      in if pow2 e \<le> \<bar>x\<bar> then e else e - 1)"

definition roundHalfEven :: "rat \<Rightarrow> int" where
  "roundHalfEven x =
     (let f = \<lfloor>x\<rfloor>;
          d = x - of_int f
      in if d < 1 / 2 then f
         else if 1 / 2 < d then f + 1
         else if even f then f else f + 1)"

definition roundDouble :: "rat \<Rightarrow> rat" where
  "roundDouble x =
     (if x = 0 then 0
      else let u = pow2 (binExp x - 52)
           in of_int (roundHalfEven (x / u)) * u)"

text \<open>The operations of doubles: the exact result, rounded.\<close>

definition doubleArith :: "rat arith" where
  "doubleArith = \<lparr>mulOp = (\<lambda>x y. roundDouble (x * y)), subOp = (\<lambda>x y. roundDouble (x - y))\<rparr>"

text \<open>
  The operations on the integers of the session, where they are exact: an integer below
  \<open>2 ^ 53\<close> is a double and rounds to itself (\<open>roundDouble_of_int\<close> below).
\<close>

definition exactArith :: "int arith" where
  "exactArith = \<lparr>mulOp = (\<lambda>x y. x * y), subOp = (\<lambda>x y. x - y)\<rparr>"

text \<open>
  A configuration object \<^verbatim>\<open>{ rows, cols, mines, label }\<close>. In the raw object handed to
  \<^verbatim>\<open>applyConfig\<close> a field is what \<^verbatim>\<open>Number(cfg.rows)\<close> gives: a number (\<^verbatim>\<open>NaN\<close> for a
  missing field), or the error it throws; a falsy \<^verbatim>\<open>cfg\<close> is \<open>None\<close>.
\<close>

record 'n config =
  rows :: 'n
  cols :: 'n
  mines :: 'n
  label :: string

text \<open>The messages of \<^verbatim>\<open>validateCustom\<close>; the last one carries the bound it prints.\<close>

datatype 'n custom_error =
    MsgInvalidNumber
  | MsgRowsRange
  | MsgColsRange
  | MsgMinesMin
  | MsgMinesMax 'n

text \<open>
  \<^verbatim>\<open>validateCustom(rows, cols, mines)\<close>: \<open>None\<close> is the \<^verbatim>\<open>null\<close> of an accepted input. The
  function is local to \<^verbatim>\<open>createUI\<close>, and its one caller hands it three numbers.
\<close>

definition validateCustom ::
  "('n::linordered_idom) arith \<Rightarrow> 'n jsnum \<Rightarrow> 'n jsnum \<Rightarrow> 'n jsnum \<Rightarrow> 'n custom_error option" where
  "validateCustom ar rows' cols' mines' =
     (case (rows', cols', mines') of
        (Fin r, Fin c, Fin m) \<Rightarrow>
          if r < 5 \<or> r > 30 then Some MsgRowsRange
          else if c < 5 \<or> c > 40 then Some MsgColsRange
          else if m < 1 then Some MsgMinesMin
          else
            let cells = mulOp ar r c;
                reserve = min 9 (subOp ar cells 1)
            in if m > subOp ar cells reserve then Some (MsgMinesMax (subOp ar cells reserve))
               else None
      | _ \<Rightarrow> Some MsgInvalidNumber)"

text \<open>
  \<^verbatim>\<open>sanitizeCfg(cfg)\<close>: \<open>Inr None\<close> is \<^verbatim>\<open>null\<close>. The three fields are converted in the order
  rows, cols, mines, and the first conversion that throws ends the call.
\<close>

definition sanitizeCfg ::
  "('n::linordered_idom) arith \<Rightarrow> (error + 'n jsnum) config option \<Rightarrow> error + 'n config option" where
  "sanitizeCfg ar cfg =
     (case cfg of
        None \<Rightarrow> Inr None
      | Some cf \<Rightarrow>
         (case config.rows cf of
            Inl e \<Rightarrow> Inl e
          | Inr rows' \<Rightarrow>
             (case config.cols cf of
                Inl e \<Rightarrow> Inl e
              | Inr cols' \<Rightarrow>
                 (case config.mines cf of
                    Inl e \<Rightarrow> Inl e
                  | Inr mines' \<Rightarrow>
                      Inr (case (rows', cols', mines') of
                             (Fin r, Fin c, Fin m) \<Rightarrow>
                               if r < 5 \<or> r > 30 then None
                               else if c < 5 \<or> c > 40 then None
                               else
                                 let cells = mulOp ar r c;
                                     reserve = min 9 (subOp ar cells 1)
                                 in if m < 1 \<or> m > subOp ar cells reserve then None
                                    else Some \<lparr>config.rows = r, config.cols = c,
                                               config.mines = m, label = label cf\<rparr>
                           | _ \<Rightarrow> None)))))"

text \<open>The preset \<^verbatim>\<open>DIFFICULTIES.beginner\<close> (its label is not ASCII and is left empty).\<close>

definition beginner :: "('n::numeral) config" where
  "beginner = \<lparr>config.rows = 9, config.cols = 9, config.mines = 10, label = []\<rparr>"

section \<open>The grid engine\<close>

text \<open>
  The engine module (\<^verbatim>\<open>game.js\<close>: \<^verbatim>\<open>createEmptyGrid\<close>, \<^verbatim>\<open>placeMines\<close>, \<^verbatim>\<open>openCell\<close>,
  \<^verbatim>\<open>toggleFlag\<close>, \<^verbatim>\<open>countFlags\<close>, \<^verbatim>\<open>countOpenSafe\<close>, \<^verbatim>\<open>chordOpen\<close>) is imported by the
  session code but is not among the source files. Its operations are modelled from section
  4.1 of the specification; the session code that calls them is translated from the source.
  An operation that mutates the grid in place returns the new grid.
\<close>

record cell =
  mine :: bool
  "open" :: bool
  flag :: bool
  num :: nat

type_synonym grid = "cell list list"

type_synonym pos = "int \<times> int"

datatype GameStatus = READY | RUNNING | WON | LOST

text \<open>\<^verbatim>\<open>grid[r][c]\<close>: \<open>None\<close> when the row or the cell does not exist.\<close>

definition cellAt :: "grid \<Rightarrow> int \<Rightarrow> int \<Rightarrow> cell option" where
  "cellAt g r c =
     (if 0 \<le> r \<and> r < int (length g) \<and> 0 \<le> c \<and> c < int (length (g ! nat r))
      then Some (g ! nat r ! nat c) else None)"

text \<open>Writing an existing cell, \<^verbatim>\<open>grid[r][c] = v\<close> for the fields the code assigns.\<close>

definition setCell :: "grid \<Rightarrow> int \<Rightarrow> int \<Rightarrow> cell \<Rightarrow> grid" where
  "setCell g r c v = g[nat r := (g ! nat r)[nat c := v]]"

text \<open>A function applied to every cell, with the coordinates of the cell.\<close>

definition mapGrid :: "(pos \<Rightarrow> cell \<Rightarrow> cell) \<Rightarrow> grid \<Rightarrow> grid" where
  "mapGrid f g =
     map (\<lambda>(r, row). map (\<lambda>(c, cl). f (int r, int c) cl) (enumerate 0 row)) (enumerate 0 g)"

text \<open>The coordinates of all cells, row by row.\<close>

definition positions :: "grid \<Rightarrow> pos list" where
  "positions g =
     concat (map (\<lambda>(r, row). map (\<lambda>c. (int r, int c)) [0..<length row]) (enumerate 0 g))"

definition totalCells :: "grid \<Rightarrow> nat" where
  "totalCells g = length (concat g)"

text \<open>
  Modelled from the spec: the up to eight neighbours of a cell (the coordinates around it,
  whether on the grid or not; the operations skip those that are not).
\<close>

definition neighbors :: "int \<Rightarrow> int \<Rightarrow> pos list" where
  "neighbors r c =
     [(r - 1, c - 1), (r - 1, c), (r - 1, c + 1),
      (r, c - 1), (r, c + 1),
      (r + 1, c - 1), (r + 1, c), (r + 1, c + 1)]"

text \<open>
  Modelled from the spec: the cell of a fresh grid, unopened, unflagged, not a mine, with
  \<^verbatim>\<open>num = 0\<close>.
\<close>

definition emptyCell :: cell where
  "emptyCell = \<lparr>mine = False, open = False, flag = False, num = 0\<rparr>"

text \<open>
  Modelled from the spec: \<^verbatim>\<open>createEmptyGrid(rows, cols)\<close> of the missing engine module. A
  grid of the given dimensions with every cell unopened, unflagged, not a mine, \<^verbatim>\<open>num = 0\<close>;
  it fails with \<^verbatim>\<open>InvalidDimension\<close> if \<^verbatim>\<open>rows < 1\<close> or \<^verbatim>\<open>cols < 1\<close>.
\<close>

definition createEmptyGrid :: "int \<Rightarrow> int \<Rightarrow> error + grid" where
  "createEmptyGrid rows' cols' =
     (if rows' < 1 \<or> cols' < 1 then Inl InvalidDimension
      else Inr (replicate (nat rows') (replicate (nat cols') emptyCell)))"

text \<open>
  Modelled from the spec: the safe region of \<^verbatim>\<open>placeMines\<close>. The clicked cell and those of
  its eight neighbours that exist on the grid; on a grid too small to spare them the region
  is cut to \<^verbatim>\<open>min(9, totalCells - 1)\<close> cells, never below the clicked cell itself.
\<close>

definition safeRegion :: "grid \<Rightarrow> int \<Rightarrow> int \<Rightarrow> pos list" where
  "safeRegion g safeRow safeCol =
     (let region = filter (\<lambda>(r, c). cellAt g r c \<noteq> None) ((safeRow, safeCol) # neighbors safeRow safeCol);
          cap = min 9 (int (totalCells g) - 1)
      in take (nat (max 1 cap)) region)"

text \<open>
  Modelled from the spec: the random choice of \<open>n\<close> distinct elements of a list, for
  \<^verbatim>\<open>placeMines\<close>. The random source is a parameter: \<open>rnd k\<close> is the number drawn when
  \<open>k + 1\<close> elements are still to be chosen.
\<close>

fun pick :: "(nat \<Rightarrow> nat) \<Rightarrow> nat \<Rightarrow> 'a list \<Rightarrow> 'a list" where
  "pick rnd 0 xs = []"
| "pick rnd (Suc n) xs =
     (if xs = [] then []
      else let i = rnd n mod length xs
           in xs ! i # pick rnd n (take i xs @ drop (Suc i) xs))"

text \<open>Whether the coordinates are those of a mine on the grid.\<close>

definition isMineAt :: "grid \<Rightarrow> pos \<Rightarrow> bool" where
  "isMineAt g p = (case cellAt g (fst p) (snd p) of None \<Rightarrow> False | Some cl \<Rightarrow> mine cl)"

text \<open>
  Modelled from the spec: \<^verbatim>\<open>placeMines(grid, mineCount, safeRow, safeCol)\<close> of the missing
  engine module. It chooses \<^verbatim>\<open>mineCount\<close> distinct cells outside the safe region at random
  and marks them as mines, then sets \<^verbatim>\<open>num\<close> of every cell that is not a mine to the number
  of mines among its existing neighbours. It fails with \<^verbatim>\<open>InfeasibleMineCount\<close>, the grid
  unmodified, if \<^verbatim>\<open>mineCount > totalCells - reservedCells\<close>.
\<close>

definition placeMines :: "(nat \<Rightarrow> nat) \<Rightarrow> grid \<Rightarrow> int \<Rightarrow> int \<Rightarrow> int \<Rightarrow> error + grid" where
  "placeMines rnd g mineCount safeRow safeCol =
     (let region = safeRegion g safeRow safeCol;
          candidates = filter (\<lambda>p. p \<notin> set region) (positions g)
      in if mineCount > int (totalCells g) - int (length region) then Inl InfeasibleMineCount
         else
           let chosen = pick rnd (nat mineCount) candidates;
               g1 = mapGrid (\<lambda>p cl. if p \<in> set chosen then cl\<lparr>mine := True\<rparr> else cl) g
           in Inr (mapGrid
                (\<lambda>p cl. if mine cl then cl
                         else cl\<lparr>num := length (filter (isMineAt g1) (neighbors (fst p) (snd p)))\<rparr>)
                g1))"

text \<open>The result object \<^verbatim>\<open>{ opened, hitMine }\<close> of \<^verbatim>\<open>openCell\<close>.\<close>

record open_result =
  opened :: "pos list"
  hitMine :: bool

text \<open>The number of cells that are not open: what the flood fill uses up.\<close>

definition closedCount :: "grid \<Rightarrow> nat" where
  "closedCount g = sum_list (map (\<lambda>row. length (filter (\<lambda>cl. \<not> open cl) row)) g)"

lemma filter_update_less:
  "j < length row \<Longrightarrow> P (row ! j) \<Longrightarrow> \<not> P v \<Longrightarrow>
   Suc (length (filter P (row[j := v]))) = length (filter P row)"
proof (induction row arbitrary: j)
  case Nil
  then show ?case by simp
next
  case (Cons x xs)
  then show ?case by (cases j) auto
qed

lemma sum_list_update_nat:
  "i < length xs \<Longrightarrow> sum_list (xs[i := (y::nat)]) + xs ! i = sum_list xs + y"
proof (induction xs arbitrary: i)
  case Nil
  then show ?case by simp
next
  case (Cons x xs)
  then show ?case by (cases i) auto
qed

lemma closedCount_setCell:
  assumes "cellAt g r c = Some cl" "\<not> open cl"
  shows "closedCount (setCell g r c (cl\<lparr>open := True\<rparr>)) < closedCount g"
proof -
  from assms(1) have b: "0 \<le> r" "nat r < length g" "0 \<le> c" "nat c < length (g ! nat r)"
    and cl: "g ! nat r ! nat c = cl"
    by (auto simp: cellAt_def split: if_splits)
  let ?f = "\<lambda>row. length (filter (\<lambda>cl. \<not> open cl) row)"
  let ?row = "(g ! nat r)[nat c := cl\<lparr>open := True\<rparr>]"
  have 1: "Suc (?f ?row) = ?f (g ! nat r)"
    using filter_update_less [of "nat c" "g ! nat r" "\<lambda>cl. \<not> open cl" "cl\<lparr>open := True\<rparr>"]
      b cl assms(2)
    by simp
  have "sum_list ((map ?f g)[nat r := ?f ?row]) + (map ?f g) ! nat r
        = sum_list (map ?f g) + ?f ?row"
    using sum_list_update_nat [of "nat r" "map ?f g" "?f ?row"] b by simp
  then show ?thesis
    using 1 b by (simp add: closedCount_def setCell_def map_update)
qed

text \<open>
  Modelled from the spec: the flood fill of \<^verbatim>\<open>openCell\<close>, iterative with an explicit work
  stack. A popped coordinate that is off the grid, open, flagged or a mine is dropped; any
  other cell is opened and recorded, and a cell with \<^verbatim>\<open>num = 0\<close> pushes its neighbours. The
  \<^verbatim>\<open>open\<close> mark is the visited set: an opened cell is never processed again.
\<close>

function flood :: "grid \<Rightarrow> pos list \<Rightarrow> pos list \<Rightarrow> grid \<times> pos list" where
  "flood g [] acc = (g, acc)"
| "flood g (p # stack) acc =
     (case cellAt g (fst p) (snd p) of
        None \<Rightarrow> flood g stack acc
      | Some cl \<Rightarrow>
          if open cl \<or> flag cl \<or> mine cl then flood g stack acc
          else flood (setCell g (fst p) (snd p) (cl\<lparr>open := True\<rparr>))
                 ((if num cl = 0 then neighbors (fst p) (snd p) else []) @ stack)
                 (acc @ [p]))"
  by pat_completeness auto
termination
  by (relation "measures [\<lambda>(g, stack, acc). closedCount g, \<lambda>(g, stack, acc). length stack]")
     (auto simp: closedCount_setCell)

text \<open>
  Modelled from the spec: \<^verbatim>\<open>openCell(grid, row, col)\<close> of the missing engine module. A
  target that is off the grid, open or flagged is a no-op; a mine is marked open and
  reported; any other cell is opened, with the flood fill when its \<^verbatim>\<open>num\<close> is 0.
\<close>

definition openCell :: "grid \<Rightarrow> int \<Rightarrow> int \<Rightarrow> grid \<times> open_result" where
  "openCell g r c =
     (case cellAt g r c of
        None \<Rightarrow> (g, \<lparr>opened = [], hitMine = False\<rparr>)
      | Some cl \<Rightarrow>
          if open cl \<or> flag cl then (g, \<lparr>opened = [], hitMine = False\<rparr>)
          else if mine cl
          then (setCell g r c (cl\<lparr>open := True\<rparr>), \<lparr>opened = [(r, c)], hitMine = True\<rparr>)
          else let (g', os) = flood g [(r, c)] []
               in (g', \<lparr>opened = os, hitMine = False\<rparr>))"

text \<open>
  Modelled from the spec: \<^verbatim>\<open>toggleFlag(grid, row, col)\<close> of the missing engine module. It
  returns \<^verbatim>\<open>false\<close>, nothing changed, for an open cell or coordinates off the grid, and
  flips \<^verbatim>\<open>flag\<close> and returns \<^verbatim>\<open>true\<close> otherwise.
\<close>

definition toggleFlag :: "grid \<Rightarrow> int \<Rightarrow> int \<Rightarrow> grid \<times> bool" where
  "toggleFlag g r c =
     (case cellAt g r c of
        None \<Rightarrow> (g, False)
      | Some cl \<Rightarrow>
          if open cl then (g, False)
          else (setCell g r c (cl\<lparr>flag := \<not> flag cl\<rparr>), True))"

text \<open>Modelled from the spec: \<^verbatim>\<open>countFlags(grid)\<close>, the number of flagged cells.\<close>

definition countFlags :: "grid \<Rightarrow> nat" where
  "countFlags g = length (filter flag (concat g))"

text \<open>
  Modelled from the spec: \<^verbatim>\<open>countOpenSafe(grid)\<close> of the missing engine module, as the pair
  \<open>(opened, totalSafe)\<close>: the number of cells that are open and not a mine, and the number
  of cells that are not a mine, both counted from the cells at each call.
\<close>

definition countOpenSafe :: "grid \<Rightarrow> nat \<times> nat" where
  "countOpenSafe g =
     (length (filter (\<lambda>cl. \<not> mine cl \<and> open cl) (concat g)),
      length (filter (\<lambda>cl. \<not> mine cl) (concat g)))"

text \<open>The result object \<^verbatim>\<open>{ did, hitMine }\<close> of \<^verbatim>\<open>chordOpen\<close>.\<close>

record chord_result =
  did :: bool
  chordHit :: bool

text \<open>
  Modelled from the spec: the loop of \<^verbatim>\<open>chordOpen\<close>. The neighbours are revealed one by one
  with \<^verbatim>\<open>openCell\<close> (which leaves an open or flagged neighbour alone); the first mine
  that is hit ends the chord.
\<close>

fun chordNeighbors :: "grid \<Rightarrow> pos list \<Rightarrow> grid \<times> chord_result" where
  "chordNeighbors g [] = (g, \<lparr>did = True, chordHit = False\<rparr>)"
| "chordNeighbors g (p # ps) =
     (let (g', res) = openCell g (fst p) (snd p)
      in if hitMine res then (g', \<lparr>did = True, chordHit = True\<rparr>)
         else chordNeighbors g' ps)"

text \<open>Whether the coordinates are those of a flagged cell on the grid.\<close>

definition isFlagAt :: "grid \<Rightarrow> pos \<Rightarrow> bool" where
  "isFlagAt g p = (case cellAt g (fst p) (snd p) of None \<Rightarrow> False | Some cl \<Rightarrow> flag cl)"

text \<open>
  Modelled from the spec: \<^verbatim>\<open>chordOpen(grid, row, col)\<close> of the missing engine module. On an
  open cell with \<^verbatim>\<open>num > 0\<close> whose number of flagged neighbours equals \<^verbatim>\<open>num\<close>, every
  unflagged, unopened neighbour is revealed; in every other case the call is a no-op with
  \<^verbatim>\<open>{ did: false, hitMine: false }\<close>. (The field \<^verbatim>\<open>hitMine\<close> of this result is \<open>chordHit\<close>.)
\<close>

definition chordOpen :: "grid \<Rightarrow> int \<Rightarrow> int \<Rightarrow> grid \<times> chord_result" where
  "chordOpen g r c =
     (case cellAt g r c of
        None \<Rightarrow> (g, \<lparr>did = False, chordHit = False\<rparr>)
      | Some cl \<Rightarrow>
          if \<not> open cl \<or> num cl = 0 then (g, \<lparr>did = False, chordHit = False\<rparr>)
          else if length (filter (isFlagAt g) (neighbors r c)) \<noteq> num cl
          then (g, \<lparr>did = False, chordHit = False\<rparr>)
          else chordNeighbors g (neighbors r c))"

section \<open>The session\<close>

text \<open>
  The \<^verbatim>\<open>state\<close> object of \<^verbatim>\<open>createUI\<close>, with the fields the game logic reads and writes
  (the timer, sound, focus and layout fields and all DOM effects are left out). The field
  \<open>placeCalls\<close> is not in the source: it counts the calls of \<^verbatim>\<open>placeMines\<close>, so that a
  statement can speak about them. The type \<open>'n\<close> is that of the numbers \<^verbatim>\<open>applyConfig\<close>
  stores: doubles where the statement is about any configuration, integers in the game,
  whose engine the specification defines for integer sizes.
\<close>

record 'n state =
  cfg :: "'n config"
  rows :: 'n
  cols :: 'n
  mines :: 'n
  grid :: grid
  status :: GameStatus
  firstClick :: bool
  placeCalls :: nat

text \<open>
  \<^verbatim>\<open>newGame()\<close>. The engine's \<^verbatim>\<open>createEmptyGrid\<close> is the argument \<open>create\<close>; in the game it
  is the function of that name above.
\<close>

definition newGame :: "('n \<Rightarrow> 'n \<Rightarrow> error + grid) \<Rightarrow> 'n state \<Rightarrow> error + 'n state" where
  "newGame create s =
     (case create (state.rows s) (state.cols s) of
        Inl e \<Rightarrow> Inl e
      | Inr g \<Rightarrow> Inr (s\<lparr>grid := g, status := READY, firstClick := True\<rparr>))"

text \<open>
  \<^verbatim>\<open>applyConfig(cfg)\<close>: a configuration that \<^verbatim>\<open>sanitizeCfg\<close> rejects gives the preset; an
  error thrown in \<^verbatim>\<open>sanitizeCfg\<close> leaves the call.
\<close>

definition applyConfig ::
  "('n::linordered_idom) arith \<Rightarrow> ('n \<Rightarrow> 'n \<Rightarrow> error + grid) \<Rightarrow>
   (error + 'n jsnum) config option \<Rightarrow> 'n state \<Rightarrow> error + 'n state" where
  "applyConfig ar create cfg' s =
     (case sanitizeCfg ar cfg' of
        Inl e \<Rightarrow> Inl e
      | Inr res \<Rightarrow>
          let safe = (case res of Some cf \<Rightarrow> cf | None \<Rightarrow> beginner)
          in newGame create (s\<lparr>cfg := safe, rows := config.rows safe,
                                cols := config.cols safe, mines := config.mines safe\<rparr>))"

text \<open>
  The body of the two loops of \<^verbatim>\<open>gameOver\<close> at one coordinate: reading a cell that does not
  exist throws.
\<close>

definition revealCell :: "bool \<Rightarrow> grid \<Rightarrow> pos \<Rightarrow> error + grid" where
  "revealCell win g p =
     (case cellAt g (fst p) (snd p) of
        None \<Rightarrow> Inl TypeError
      | Some cl \<Rightarrow>
          if win then (if \<not> mine cl then Inr (setCell g (fst p) (snd p) (cl\<lparr>open := True\<rparr>))
                       else Inr g)
          else (if mine cl then Inr (setCell g (fst p) (snd p) (cl\<lparr>open := True\<rparr>))
                else Inr g))"

fun revealAll :: "bool \<Rightarrow> grid \<Rightarrow> pos list \<Rightarrow> error + grid" where
  "revealAll win g [] = Inr g"
| "revealAll win g (p # ps) =
     (case revealCell win g p of Inl e \<Rightarrow> Inl e | Inr g' \<Rightarrow> revealAll win g' ps)"

text \<open>The coordinates the loops \<^verbatim>\<open>for r < rows, for c < cols\<close> run through, in their order.\<close>

definition loopCoords :: "int \<Rightarrow> int \<Rightarrow> pos list" where
  "loopCoords rows' cols' = concat (map (\<lambda>r. map (\<lambda>c. (r, c)) [0..cols' - 1]) [0..rows' - 1])"

text \<open>\<^verbatim>\<open>gameOver(win)\<close>.\<close>

definition gameOver :: "bool \<Rightarrow> int state \<Rightarrow> error + int state" where
  "gameOver win s =
     (let s1 = s\<lparr>status := (if win then WON else LOST)\<rparr>
      in case revealAll win (grid s1) (loopCoords (state.rows s1) (state.cols s1)) of
           Inl e \<Rightarrow> Inl e
         | Inr g \<Rightarrow> Inr (s1\<lparr>grid := g\<rparr>))"

text \<open>\<^verbatim>\<open>checkWin()\<close>.\<close>

definition checkWin :: "int state \<Rightarrow> error + int state" where
  "checkWin s =
     (let (opened', totalSafe) = countOpenSafe (grid s)
      in if opened' = totalSafe \<and> status s \<noteq> WON then gameOver True s else Inr s)"

text \<open>\<^verbatim>\<open>ensureMinesPlaced(firstR, firstC)\<close>; \<open>rnd\<close> is the random source of this call.\<close>

definition ensureMinesPlaced :: "(nat \<Rightarrow> nat) \<Rightarrow> int \<Rightarrow> int \<Rightarrow> int state \<Rightarrow> error + int state" where
  "ensureMinesPlaced rnd firstR firstC s =
     (if \<not> firstClick s then Inr s
      else case placeMines rnd (grid s) (state.mines s) firstR firstC of
             Inl e \<Rightarrow> Inl e
           | Inr g \<Rightarrow> Inr (s\<lparr>grid := g, firstClick := False, status := RUNNING,
                              placeCalls := Suc (placeCalls s)\<rparr>))"

text \<open>\<^verbatim>\<open>state.grid[r][c].open = true\<close>.\<close>

definition markOpen :: "grid \<Rightarrow> int \<Rightarrow> int \<Rightarrow> error + grid" where
  "markOpen g r c =
     (case cellAt g r c of
        None \<Rightarrow> Inl TypeError
      | Some cl \<Rightarrow> Inr (setCell g r c (cl\<lparr>open := True\<rparr>)))"

text \<open>\<^verbatim>\<open>openAt(r, c)\<close>.\<close>

definition openAt :: "(nat \<Rightarrow> nat) \<Rightarrow> int \<Rightarrow> int \<Rightarrow> int state \<Rightarrow> error + int state" where
  "openAt rnd r c s =
     (if status s = LOST \<or> status s = WON then Inr s
      else case ensureMinesPlaced rnd r c s of
             Inl e \<Rightarrow> Inl e
           | Inr s1 \<Rightarrow>
               let (g, res) = openCell (grid s1) r c;
                   s2 = s1\<lparr>grid := g\<rparr>
               in if hitMine res
                  then (case markOpen (grid s2) r c of
                          Inl e \<Rightarrow> Inl e
                        | Inr g' \<Rightarrow> gameOver False (s2\<lparr>grid := g'\<rparr>))
                  else checkWin s2)"

text \<open>\<^verbatim>\<open>flagAt(r, c)\<close>.\<close>

definition flagAt :: "int \<Rightarrow> int \<Rightarrow> int state \<Rightarrow> error + int state" where
  "flagAt r c s =
     (if status s = LOST \<or> status s = WON then Inr s
      else case cellAt (grid s) r c of
             None \<Rightarrow> Inl TypeError
           | Some cl \<Rightarrow>
               if open cl then Inr s
               else let (g, ok) = toggleFlag (grid s) r c
                    in if \<not> ok then Inr s else Inr (s\<lparr>grid := g\<rparr>))"

text \<open>\<^verbatim>\<open>chordAt(r, c)\<close>.\<close>

definition chordAt :: "int \<Rightarrow> int \<Rightarrow> int state \<Rightarrow> error + int state" where
  "chordAt r c s =
     (if status s \<noteq> RUNNING then Inr s
      else let (g, res) = chordOpen (grid s) r c
           in if \<not> did res then Inr s
              else let s2 = s\<lparr>grid := g\<rparr>
                   in if chordHit res then gameOver False s2 else checkWin s2)"

text \<open>
  The calls a player can make within one game, and a sequence of them; a call that throws
  ends the sequence.
\<close>

datatype op = OpenAt "nat \<Rightarrow> nat" int int | FlagAt int int | ChordAt int int

fun perform :: "op \<Rightarrow> int state \<Rightarrow> error + int state" where
  "perform (OpenAt rnd r c) s = openAt rnd r c s"
| "perform (FlagAt r c) s = flagAt r c s"
| "perform (ChordAt r c) s = chordAt r c s"

fun run :: "op list \<Rightarrow> int state \<Rightarrow> error + int state" where
  "run [] s = Inr s"
| "run (x # xs) s = (case perform x s of Inl e \<Rightarrow> Inl e | Inr s' \<Rightarrow> run xs s')"

section \<open>Notions used in the statements\<close>

text \<open>
  The largest number of mines the two checks let through: the value of \<^verbatim>\<open>cells - reserve\<close>, with
  \<^verbatim>\<open>cells = rows * cols\<close> and \<^verbatim>\<open>reserve = Math.min(9, cells - 1)\<close>, in the arithmetic \<open>ar\<close>.
\<close>

definition maxMines :: "('n::linordered_idom) arith \<Rightarrow> 'n \<Rightarrow> 'n \<Rightarrow> 'n" where
  "maxMines ar r c =
     (let cells = mulOp ar r c;
          reserve = min 9 (subOp ar cells 1)
      in subOp ar cells reserve)"


text \<open>A grid of \<open>rows'\<close> rows that all have \<open>cols'\<close> cells.\<close>

definition shaped :: "grid \<Rightarrow> int \<Rightarrow> int \<Rightarrow> bool" where
  "shaped g rows' cols' \<longleftrightarrow> map length g = replicate (nat rows') (nat cols')"

text \<open>
  What \<^verbatim>\<open>gameOver(win)\<close> does to one cell: it opens the mines on a loss and the other cells
  on a win.
\<close>

definition reveal :: "bool \<Rightarrow> cell \<Rightarrow> cell" where
  "reveal win cl = cl\<lparr>open := open cl \<or> mine cl = (\<not> win)\<rparr>"

text \<open>A cell the flood fill may open: on the grid, not open, not flagged, not a mine.\<close>

definition openable :: "grid \<Rightarrow> pos \<Rightarrow> bool" where
  "openable g p =
     (case cellAt g (fst p) (snd p) of
        None \<Rightarrow> False
      | Some cl \<Rightarrow> \<not> open cl \<and> \<not> flag cl \<and> \<not> mine cl)"

text \<open>A cell on the grid with \<^verbatim>\<open>num = 0\<close>.\<close>

definition zeroAt :: "grid \<Rightarrow> pos \<Rightarrow> bool" where
  "zeroAt g p = (case cellAt g (fst p) (snd p) of None \<Rightarrow> False | Some cl \<Rightarrow> num cl = 0)"

text \<open>
  What a flood fill started from the coordinates \<open>S\<close> gets to: the cells of \<open>S\<close> it may open,
  and from a cell with \<^verbatim>\<open>num = 0\<close> the neighbours it may open.
\<close>

inductive_set reach :: "grid \<Rightarrow> pos set \<Rightarrow> pos set" for g :: grid and S :: "pos set" where
  start: "p \<in> S \<Longrightarrow> openable g p \<Longrightarrow> p \<in> reach g S"
| step: "p \<in> reach g S \<Longrightarrow> zeroAt g p \<Longrightarrow> q \<in> set (neighbors (fst p) (snd p)) \<Longrightarrow>
         openable g q \<Longrightarrow> q \<in> reach g S"

text \<open>The grid \<open>g'\<close> is \<open>g\<close> with exactly the cells of \<open>X\<close> opened.\<close>

definition openSet :: "pos set \<Rightarrow> grid \<Rightarrow> grid \<Rightarrow> bool" where
  "openSet X g g' \<longleftrightarrow>
     (\<forall>r c. cellAt g' r c
        = map_option (\<lambda>cl. if (r, c) \<in> X then cl\<lparr>open := True\<rparr> else cl) (cellAt g r c))"

text \<open>
  The zero region of a cell: the cells reached from it by steps to a neighbour, through
  cells with \<^verbatim>\<open>num = 0\<close> that are not open, not flagged and not mines.
\<close>

inductive_set zeroRegion :: "grid \<Rightarrow> pos \<Rightarrow> pos set" for g :: grid and p0 :: pos where
  origin: "openable g p0 \<Longrightarrow> zeroAt g p0 \<Longrightarrow> p0 \<in> zeroRegion g p0"
| spread: "p \<in> zeroRegion g p0 \<Longrightarrow> q \<in> set (neighbors (fst p) (snd p)) \<Longrightarrow>
           openable g q \<Longrightarrow> zeroAt g q \<Longrightarrow> q \<in> zeroRegion g p0"


text \<open>
  The connected component of the cells with \<^verbatim>\<open>num = 0\<close> that are not mines, whatever
  their flags and whether they are open.
\<close>

inductive_set zeroComponent :: "grid \<Rightarrow> pos \<Rightarrow> pos set" for g :: grid and p0 :: pos where
  origin: "p0 \<in> zeroComponent g p0"
| spread: "p \<in> zeroComponent g p0 \<Longrightarrow> q \<in> set (neighbors (fst p) (snd p)) \<Longrightarrow>
           zeroAt g q \<Longrightarrow> \<not> isMineAt g q \<Longrightarrow> q \<in> zeroComponent g p0"


text \<open>
  The grid \<open>g'\<close> is \<open>g\<close> with some cells opened that were neither open nor flagged (and, if
  \<open>safe\<close>, not mines).
\<close>

definition opensTo :: "bool \<Rightarrow> grid \<Rightarrow> grid \<Rightarrow> bool" where
  "opensTo safe g g' \<longleftrightarrow>
     (\<forall>r c. cellAt g' r c = cellAt g r c
        \<or> (\<exists>cl. cellAt g r c = Some cl \<and> \<not> open cl \<and> \<not> flag cl \<and> (safe \<longrightarrow> \<not> mine cl)
              \<and> cellAt g' r c = Some (cl\<lparr>open := True\<rparr>)))"

text \<open>A small board and session, for the concrete instances below.\<close>

definition demoGrid :: grid where
  "demoGrid = [[\<lparr>mine = True, open = False, flag = True, num = 0\<rparr>,
               \<lparr>mine = False, open = False, flag = False, num = 1\<rparr>,
               \<lparr>mine = True, open = False, flag = False, num = 0\<rparr>]]"

definition demoState :: "GameStatus \<Rightarrow> int state" where
  "demoState st = \<lparr>cfg = beginner, rows = 1, cols = 3, mines = 2, grid = demoGrid,
                   status = st, firstClick = False, placeCalls = 1\<rparr>"

text \<open>
  The state object as \<^verbatim>\<open>createUI\<close> builds it (its \<^verbatim>\<open>cfg\<close> is the preset selected in the
  page, here the beginner preset; \<^verbatim>\<open>applyConfig\<close> overwrites it before anything reads it).
\<close>

definition initState :: "('n::numeral) state" where
  "initState = \<lparr>cfg = beginner, rows = 9, cols = 9, mines = 10, grid = [],
                 status = READY, firstClick = True, placeCalls = 0\<rparr>"

text \<open>
  A game on a board of 5 by 5 with 3 mines: the configuration, the state \<^verbatim>\<open>applyConfig\<close>
  gives, and the calls of the player: a flag on (0, 1), a first click on (4, 4) with a random
  source that puts the mines on (0, 1), (1, 0) and (1, 1), and a click on the mine at (1, 0).
  The last definition is the state after these calls.
\<close>

definition cfg5 :: "(error + int jsnum) config option" where
  "cfg5 = Some \<lparr>config.rows = Inr (Fin 5), config.cols = Inr (Fin 5), config.mines = Inr (Fin 3),
                 label = []\<rparr>"

definition rnd5 :: "nat \<Rightarrow> nat" where
  "rnd5 k = (if k = 2 then 1 else 4)"

definition game5 :: "int state" where
  "game5 = \<lparr>cfg = \<lparr>config.rows = 5, config.cols = 5, config.mines = 3, label = []\<rparr>,
             rows = 5, cols = 5, mines = 3, grid = replicate 5 (replicate 5 emptyCell),
             status = READY, firstClick = True, placeCalls = 0\<rparr>"

definition ops5 :: "op list" where
  "ops5 = [FlagAt 0 1, OpenAt rnd5 4 4, OpenAt rnd5 1 0]"

definition openSafe :: "nat \<Rightarrow> cell" where
  "openSafe n = \<lparr>mine = False, open = True, flag = False, num = n\<rparr>"

definition lost5 :: "int state" where
  "lost5 = \<lparr>cfg = \<lparr>config.rows = 5, config.cols = 5, config.mines = 3, label = []\<rparr>,
             rows = 5, cols = 5, mines = 3,
             grid =
               [[\<lparr>mine = False, open = False, flag = False, num = 3\<rparr>,
                 \<lparr>mine = True, open = True, flag = True, num = 0\<rparr>,
                 openSafe 2, openSafe 0, openSafe 0],
                [\<lparr>mine = True, open = True, flag = False, num = 0\<rparr>,
                 \<lparr>mine = True, open = True, flag = False, num = 0\<rparr>,
                 openSafe 2, openSafe 0, openSafe 0],
                [openSafe 2, openSafe 2, openSafe 1, openSafe 0, openSafe 0],
                [openSafe 0, openSafe 0, openSafe 0, openSafe 0, openSafe 0],
                [openSafe 0, openSafe 0, openSafe 0, openSafe 0, openSafe 0]],
             status = LOST, firstClick = False, placeCalls = 1\<rparr>"

text \<open>
  The same board after a flag on (4, 4) and a first click on that flagged cell: the mines are
  placed, and no cell is open.
\<close>

definition closedCell :: "bool \<Rightarrow> nat \<Rightarrow> cell" where
  "closedCell m n = \<lparr>mine = m, open = False, flag = False, num = n\<rparr>"

definition flagged5 :: "int state" where
  "flagged5 = \<lparr>cfg = \<lparr>config.rows = 5, config.cols = 5, config.mines = 3, label = []\<rparr>,
                rows = 5, cols = 5, mines = 3,
                grid =
                  [[closedCell False 3, closedCell True 0, closedCell False 2,
                    closedCell False 0, closedCell False 0],
                   [closedCell True 0, closedCell True 0, closedCell False 2,
                    closedCell False 0, closedCell False 0],
                   [closedCell False 2, closedCell False 2, closedCell False 1,
                    closedCell False 0, closedCell False 0],
                   [closedCell False 0, closedCell False 0, closedCell False 0,
                    closedCell False 0, closedCell False 0],
                   [closedCell False 0, closedCell False 0, closedCell False 0,
                    closedCell False 0, \<lparr>mine = False, open = False, flag = True, num = 0\<rparr>]],
                status = RUNNING, firstClick = False, placeCalls = 1\<rparr>"

text \<open>
  The double nearest to 5.1, which is what the literal \<^verbatim>\<open>5.1\<close> and \<^verbatim>\<open>Number("5.1")\<close> are:
  5742089524897382 divided by the 50th power of 2, a little less than 5.1.
\<close>

definition d51 :: rat where
  "d51 = 5742089524897382 / 1125899906842624"






definition demoWon :: grid where
  "demoWon = [[\<lparr>mine = True, open = False, flag = True, num = 0\<rparr>,
               \<lparr>mine = False, open = True, flag = False, num = 1\<rparr>,
               \<lparr>mine = True, open = False, flag = False, num = 0\<rparr>]]"

text \<open>A board on which a chord on (0, 1) opens the last safe cell, and the board after it.\<close>

definition demoChord :: grid where
  "demoChord = [[\<lparr>mine = True, open = False, flag = True, num = 0\<rparr>,
                 \<lparr>mine = False, open = True, flag = False, num = 1\<rparr>,
                 \<lparr>mine = False, open = False, flag = False, num = 0\<rparr>]]"

definition demoChordWon :: grid where
  "demoChordWon = [[\<lparr>mine = True, open = False, flag = True, num = 0\<rparr>,
                    \<lparr>mine = False, open = True, flag = False, num = 1\<rparr>,
                    \<lparr>mine = False, open = True, flag = False, num = 0\<rparr>]]"

text \<open>No cell of the grid is open and flagged at once.\<close>

definition clean :: "grid \<Rightarrow> bool" where
  "clean g \<longleftrightarrow> (\<forall>r c cl. cellAt g r c = Some cl \<longrightarrow> \<not> (open cl \<and> flag cl))"

text \<open>No open cell of the grid is a mine.\<close>

definition safeOpen :: "grid \<Rightarrow> bool" where
  "safeOpen g \<longleftrightarrow> (\<forall>r c cl. cellAt g r c = Some cl \<and> open cl \<longrightarrow> \<not> mine cl)"

text \<open>
  What holds in every state the session reaches: the grid has the stored dimensions, which
  are those of an accepted configuration; \<^verbatim>\<open>firstClick\<close> is set exactly in the status
  \<^verbatim>\<open>READY\<close>, where no cell is open or a mine; and an open flagged cell is a mine of a lost
  game.
\<close>

definition sessionInv :: "int state \<Rightarrow> bool" where
  "sessionInv s \<longleftrightarrow>
     shaped (grid s) (state.rows s) (state.cols s)
     \<and> 5 \<le> state.rows s \<and> 5 \<le> state.cols s
     \<and> state.mines s \<le> state.rows s * state.cols s - 9
     \<and> (firstClick s \<longleftrightarrow> status s = READY)
     \<and> (status s = READY \<longrightarrow>
          (\<forall>r c cl. cellAt (grid s) r c = Some cl \<longrightarrow> \<not> open cl \<and> \<not> mine cl))
     \<and> (\<forall>r c cl. cellAt (grid s) r c = Some cl \<and> open cl \<and> flag cl \<longrightarrow>
          mine cl \<and> status s = LOST)"

text \<open>
  The states the session reaches: \<^verbatim>\<open>createUI\<close> applies a configuration to the initial state
  object, and from then on the handlers call \<^verbatim>\<open>applyConfig\<close>, \<^verbatim>\<open>newGame\<close>, \<^verbatim>\<open>openAt\<close>,
  \<^verbatim>\<open>flagAt\<close> and \<^verbatim>\<open>chordAt\<close>. (A call that throws does so before it has changed the state:
  \<^verbatim>\<open>flagAt\<close> off the grid; the other throws do not occur in these states.)
\<close>

inductive reachable :: "int state \<Rightarrow> bool" where
  start: "applyConfig exactArith createEmptyGrid cfg' initState = Inr s \<Longrightarrow> reachable s"
| config: "reachable s \<Longrightarrow> applyConfig exactArith createEmptyGrid cfg' s = Inr s' \<Longrightarrow>
           reachable s'"
| restart: "reachable s \<Longrightarrow> newGame createEmptyGrid s = Inr s' \<Longrightarrow> reachable s'"
| call: "reachable s \<Longrightarrow> perform x s = Inr s' \<Longrightarrow> reachable s'"

section \<open>Facts about the arithmetic of doubles\<close>

lemma quotient_of_of_int: "quotient_of (of_int k) = (k, 1)"
  using quotient_of_int [of k] by (simp add: Rat.of_int_def)

lemma bitlen_le_53:
  assumes "0 < k" "k < 2 ^ 53"
  shows "bitlen k \<le> 53"
proof (rule ccontr)
  assume "\<not> bitlen k \<le> 53"
  then have "53 \<le> nat (bitlen k - 1)" by simp
  then have "(2::int) ^ 53 \<le> 2 ^ nat (bitlen k - 1)"
    by (intro power_increasing) simp_all
  with bitlen_bounds [OF assms(1)] assms(2) show False by linarith
qed

lemma binExp_of_int_le:
  assumes "n \<noteq> 0" "\<bar>n\<bar> < 2 ^ 53"
  shows "binExp (of_int n) \<le> 52"
proof -
  have a: "\<bar>of_int n :: rat\<bar> = of_int \<bar>n\<bar>" by simp
  from assms have "bitlen \<bar>n\<bar> \<le> 53" by (intro bitlen_le_53) auto
  moreover have "bitlen 1 = 1" by (simp add: bitlen_alt_def)
  ultimately show ?thesis
    unfolding binExp_def a quotient_of_of_int by (simp add: Let_def)
qed

lemma roundHalfEven_of_int: "roundHalfEven (of_int k) = k"
  by (simp add: roundHalfEven_def)

lemma roundDouble_of_int:
  assumes "\<bar>n\<bar> < 2 ^ 53"
  shows "roundDouble (of_int n) = of_int n"
proof (cases "n = 0")
  case True
  then show ?thesis by (simp add: roundDouble_def)
next
  case False
  from binExp_of_int_le [OF False assms] obtain k where k: "binExp (of_int n) - 52 = - int k"
    by (metis add.inverse_inverse diff_le_0_iff_le nonneg_int_cases neg_0_le_iff_le)
  have u: "pow2 (- int k) = 1 / 2 ^ k"
    by (cases "k = 0") (simp_all add: pow2_def)
  have "of_int n / (1 / 2 ^ k) = (of_int (n * 2 ^ k) :: rat)" by simp
  then have "roundHalfEven (of_int n / (1 / 2 ^ k)) = n * 2 ^ k"
    by (simp only: roundHalfEven_of_int)
  with False show ?thesis
    by (simp add: roundDouble_def k u Let_def)
qed

lemma maxMines_of_int:
  assumes "0 < i * j" "i * j < 2 ^ 53"
  shows "maxMines doubleArith (of_int i) (of_int j) = of_int (i * j - min 9 (i * j - 1))"
proof -
  let ?k = "i * j"
  from assms have 1: "roundDouble (of_int ?k) = of_int ?k"
    by (intro roundDouble_of_int) simp
  from assms have 2: "roundDouble (of_int (?k - 1)) = of_int (?k - 1)"
    by (intro roundDouble_of_int) simp
  have 3: "min 9 (of_int (?k - 1) :: rat) = of_int (min 9 (?k - 1))"
    by (subst of_int_min) simp
  from assms have 4: "roundDouble (of_int (?k - min 9 (?k - 1))) = of_int (?k - min 9 (?k - 1))"
    by (intro roundDouble_of_int) (simp add: min_def)
  have "maxMines doubleArith (of_int i) (of_int j)
        = roundDouble (roundDouble (of_int ?k) - min 9 (roundDouble (roundDouble (of_int ?k) - 1)))"
    by (simp add: maxMines_def doubleArith_def Let_def)
  also have "\<dots> = roundDouble (of_int ?k - min 9 (roundDouble (of_int (?k - 1))))"
    unfolding 1 by simp
  also have "\<dots> = roundDouble (of_int (?k - min 9 (?k - 1)))"
    unfolding 2 3 by simp
  finally show ?thesis unfolding 4 .
qed

lemma size_product:
  assumes "5 \<le> (i::int)" "i \<le> 30" "5 \<le> j" "j \<le> 40"
  shows "0 < i * j" and "i * j < 2 ^ 53"
proof -
  from assms show "0 < i * j" by simp
  from assms have "i * j \<le> 30 * 40" by (intro mult_mono) simp_all
  then show "i * j < 2 ^ 53" by simp
qed

section \<open>Facts about grids and the engine\<close>

lemma cellAt_setCell:
  "cellAt g r c = Some cl \<Longrightarrow>
   cellAt (setCell g r c v) r' c' = (if r' = r \<and> c' = c then Some v else cellAt g r' c')"
  by (auto simp: cellAt_def setCell_def nth_list_update split: if_splits)

lemma lengths_setCell: "map length (setCell g r c v) = map length g"
proof (cases "nat r < length g")
  case True
  then have "(map length g)[nat r := length (g ! nat r)] = map length g"
    by (simp add: list_update_same_conv)
  then show ?thesis by (simp add: setCell_def map_update)
next
  case False
  then have "g[nat r := (g ! nat r)[nat c := v]] = g"
    by (simp add: list_update_beyond)
  then show ?thesis by (simp add: setCell_def)
qed

lemma cellAt_shaped:
  assumes "shaped g rows' cols'"
  shows "cellAt g r c \<noteq> None \<longleftrightarrow> 0 \<le> r \<and> r < rows' \<and> 0 \<le> c \<and> c < cols'"
proof -
  from assms have len: "length g = nat rows'"
    by (metis shaped_def length_map length_replicate)
  have "length (g ! i) = nat cols'" if "i < length g" for i
  proof -
    from that have "length (g ! i) = map length g ! i" by simp
    also have "\<dots> = nat cols'" using assms that len by (simp add: shaped_def)
    finally show ?thesis .
  qed
  with len show ?thesis by (auto simp: cellAt_def)
qed

lemma cellAt_mapGrid: "cellAt (mapGrid f g) r c = map_option (f (r, c)) (cellAt g r c)"
  by (auto simp: cellAt_def mapGrid_def nth_enumerate_eq)

lemma lengths_mapGrid: "map length (mapGrid f g) = map length g"
  by (auto simp: mapGrid_def intro!: nth_equalityI simp: nth_enumerate_eq)

lemma lengths_placeMines:
  "placeMines rnd g n sr sc = Inr g' \<Longrightarrow> map length g' = map length g"
  by (auto simp: placeMines_def Let_def lengths_mapGrid split: if_splits)

lemma lengths_flood: "map length (fst (flood g st acc)) = map length g"
  by (induction g st acc rule: flood.induct)
     (auto simp: lengths_setCell split: option.splits)

lemma lengths_openCell: "map length (fst (openCell g r c)) = map length g"
  using lengths_flood [of g "[(r, c)]" "[]"]
  by (auto simp: openCell_def lengths_setCell split: option.splits prod.splits)

lemma lengths_chordNeighbors: "map length (fst (chordNeighbors g ps)) = map length g"
proof (induction ps arbitrary: g)
  case Nil
  then show ?case by simp
next
  case (Cons p ps)
  show ?case
    using lengths_openCell [of g "fst p" "snd p"] Cons.IH
    by (auto split: prod.splits)
qed

lemma lengths_chordOpen: "map length (fst (chordOpen g r c)) = map length g"
  by (auto simp: chordOpen_def lengths_chordNeighbors split: option.splits)

lemma lengths_toggleFlag: "map length (fst (toggleFlag g r c)) = map length g"
  by (auto simp: toggleFlag_def lengths_setCell split: option.splits)

lemma reach_openable: "q \<in> reach g S \<Longrightarrow> openable g q"
  by (induction rule: reach.induct) auto

lemma reach_mono: "S \<subseteq> T \<Longrightarrow> reach g S \<subseteq> reach g T"
proof
  fix q assume "S \<subseteq> T" "q \<in> reach g S"
  from this(2,1) show "q \<in> reach g T"
    by (induction rule: reach.induct) (auto intro: reach.intros)
qed

lemma reach_drop:
  assumes "\<not> openable g p"
  shows "reach g (insert p S) = reach g S"
proof
  show "reach g (insert p S) \<subseteq> reach g S"
  proof
    fix q assume "q \<in> reach g (insert p S)"
    then show "q \<in> reach g S"
      using assms by (induction rule: reach.induct) (auto intro: reach.intros)
  qed
  show "reach g S \<subseteq> reach g (insert p S)"
    by (rule reach_mono) auto
qed

lemma openable_setCell:
  assumes "cellAt g (fst p) (snd p) = Some cl"
  shows "openable (setCell g (fst p) (snd p) (cl\<lparr>open := True\<rparr>)) q \<longleftrightarrow> openable g q \<and> q \<noteq> p"
  using assms by (cases p; cases q) (auto simp: openable_def cellAt_setCell)

lemma zeroAt_setCell:
  assumes "cellAt g (fst p) (snd p) = Some cl"
  shows "zeroAt (setCell g (fst p) (snd p) (cl\<lparr>open := True\<rparr>)) q \<longleftrightarrow> zeroAt g q"
  using assms by (cases p; cases q) (auto simp: zeroAt_def cellAt_setCell)

lemma reach_open:
  assumes cl: "cellAt g (fst p) (snd p) = Some cl" and op: "openable g p"
    and g1: "g1 = setCell g (fst p) (snd p) (cl\<lparr>open := True\<rparr>)"
    and N: "N = (if num cl = 0 then set (neighbors (fst p) (snd p)) else {})"
  shows "reach g (insert p S) = insert p (reach g1 (N \<union> S))" and "p \<notin> reach g1 (N \<union> S)"
proof -
  have o1: "openable g1 q \<longleftrightarrow> openable g q \<and> q \<noteq> p" for q
    unfolding g1 by (rule openable_setCell [OF cl])
  have z1: "zeroAt g1 q \<longleftrightarrow> zeroAt g q" for q
    unfolding g1 by (rule zeroAt_setCell [OF cl])
  show "p \<notin> reach g1 (N \<union> S)"
    using reach_openable [of p g1 "N \<union> S"] o1 by auto
  have zp: "zeroAt g p \<longleftrightarrow> num cl = 0"
    using cl by (simp add: zeroAt_def)
  have a: "q = p \<or> q \<in> reach g1 (N \<union> S)" if "q \<in> reach g (insert p S)" for q
    using that
  proof (induction rule: reach.induct)
    case (start q)
    then show ?case by (auto simp: o1 intro: reach.start)
  next
    case (step q' q)
    show ?case
    proof (cases "q = p")
      case True
      then show ?thesis by simp
    next
      case False
      with step.hyps have oq: "openable g1 q" by (simp add: o1)
      from step.IH show ?thesis
      proof
        assume "q' = p"
        with step.hyps zp N have "q \<in> N \<union> S" by auto
        with oq show ?thesis by (auto intro: reach.start)
      next
        assume "q' \<in> reach g1 (N \<union> S)"
        with step.hyps oq show ?thesis by (auto simp: z1 intro: reach.step)
      qed
    qed
  qed
  have b: "q \<in> reach g (insert p S)" if "q \<in> reach g1 (N \<union> S)" for q
    using that
  proof (induction rule: reach.induct)
    case (start q)
    from start.hyps(2) have oq: "openable g q" by (simp add: o1)
    from start.hyps(1) show ?case
    proof
      assume "q \<in> N"
      with N have "num cl = 0" "q \<in> set (neighbors (fst p) (snd p))"
        by (auto split: if_splits)
      moreover have "p \<in> reach g (insert p S)" using op by (auto intro: reach.start)
      ultimately show ?thesis using zp oq by (auto intro: reach.step)
    next
      assume "q \<in> S"
      with oq show ?thesis by (auto intro: reach.start)
    qed
  next
    case (step q' q)
    then show ?case by (auto simp: o1 z1 intro: reach.step)
  qed
  have "p \<in> reach g (insert p S)" using op by (auto intro: reach.start)
  with a b show "reach g (insert p S) = insert p (reach g1 (N \<union> S))" by auto
qed

lemma flood_reach:
  "flood g st acc = (g', acc') \<Longrightarrow>
     \<exists>os. acc' = acc @ os \<and> distinct os \<and> set os = reach g (set st) \<and> openSet (reach g (set st)) g g'"
proof (induction g st acc arbitrary: g' acc' rule: flood.induct)
  case (1 g acc)
  have "reach g {} = {}"
    using reach_openable by (auto elim: reach.induct)
  with 1 show ?case by (simp add: openSet_def option.map_ident)
next
  case (2 g p stack acc)
  show ?case
  proof (cases "openable g p")
    case False
    with "2.prems" have f: "flood g stack acc = (g', acc')"
      by (auto simp: openable_def split: option.splits if_splits)
    have "\<exists>os. acc' = acc @ os \<and> distinct os \<and> set os = reach g (set stack)
            \<and> openSet (reach g (set stack)) g g'"
    proof (cases "cellAt g (fst p) (snd p)")
      case None
      from "2.IH"(1) [OF None f] show ?thesis .
    next
      case (Some cl)
      with False have "open cl \<or> flag cl \<or> mine cl" by (auto simp: openable_def)
      from "2.IH"(2) [OF Some this f] show ?thesis .
    qed
    with reach_drop [OF False, of "set stack"] show ?thesis by simp
  next
    case True
    then obtain cl where cl: "cellAt g (fst p) (snd p) = Some cl"
      and ncl: "\<not> (open cl \<or> flag cl \<or> mine cl)"
      by (auto simp: openable_def split: option.splits)
    let ?g1 = "setCell g (fst p) (snd p) (cl\<lparr>open := True\<rparr>)"
    let ?nb = "if num cl = 0 then neighbors (fst p) (snd p) else []"
    let ?N = "if num cl = 0 then set (neighbors (fst p) (snd p)) else {}"
    from "2.prems" cl ncl have f: "flood ?g1 (?nb @ stack) (acc @ [p]) = (g', acc')"
      by simp
    from "2.IH"(3) [OF cl ncl f] obtain os where
      os: "acc' = (acc @ [p]) @ os" "distinct os" "set os = reach ?g1 (set (?nb @ stack))"
        "openSet (reach ?g1 (set (?nb @ stack))) ?g1 g'"
      by blast
    have eqN: "set (?nb @ stack) = ?N \<union> set stack" by simp
    note ro = reach_open [OF cl True refl refl, of "set stack"]
    have r: "reach g (set (p # stack)) = insert p (reach ?g1 (set (?nb @ stack)))"
      and np: "p \<notin> reach ?g1 (set (?nb @ stack))"
      using ro unfolding eqN by simp_all
    have "openSet (reach g (set (p # stack))) g g'"
      unfolding openSet_def
    proof (intro allI)
      fix r' c'
      from os(4) have "cellAt g' r' c' = map_option
          (\<lambda>cl. if (r', c') \<in> reach ?g1 (set (?nb @ stack)) then cl\<lparr>open := True\<rparr> else cl)
          (cellAt ?g1 r' c')"
        by (simp add: openSet_def)
      then show "cellAt g' r' c' = map_option
          (\<lambda>cl. if (r', c') \<in> reach g (set (p # stack)) then cl\<lparr>open := True\<rparr> else cl)
          (cellAt g r' c')"
        using np cl unfolding r by (cases p) (auto simp: cellAt_setCell)
    qed
    moreover have "acc' = acc @ (p # os)" using os(1) by simp
    moreover have "distinct (p # os)" using os(2,3) np by simp
    moreover have "set (p # os) = reach g (set (p # stack))" using os(3) r by simp
    ultimately show ?thesis by blast
  qed
qed






lemma reach_numbered:
  assumes "openable g p0" "\<not> zeroAt g p0"
  shows "reach g {p0} = {p0}"
proof -
  have "q = p0" if "q \<in> reach g {p0}" for q
    using that assms(2) by (induction rule: reach.induct) auto
  with assms(1) show ?thesis by (auto intro: reach.start)
qed

lemma openCell_closed_safe:
  assumes "cellAt g r c = Some cl" "\<not> open cl" "\<not> flag cl" "\<not> mine cl"
    and "openCell g r c = (g', res)"
  shows "\<not> hitMine res \<and> distinct (opened res) \<and> set (opened res) = reach g {(r, c)}
         \<and> openSet (reach g {(r, c)}) g g'"
proof -
  obtain g1 os where f: "flood g [(r, c)] [] = (g1, os)" by (cases "flood g [(r, c)] []")
  with assms have "g' = g1" "res = \<lparr>opened = os, hitMine = False\<rparr>"
    by (auto simp: openCell_def)
  with flood_reach [OF f] show ?thesis by auto
qed

lemma opensTo_refl: "opensTo b g g"
  by (simp add: opensTo_def)

lemma opensTo_trans:
  assumes "opensTo a g g1" "opensTo b g1 g2"
  shows "opensTo (a \<and> b) g g2"
  unfolding opensTo_def
proof (intro allI)
  fix r c
  from assms(1) have 1: "cellAt g1 r c = cellAt g r c
        \<or> (\<exists>cl. cellAt g r c = Some cl \<and> \<not> open cl \<and> \<not> flag cl \<and> (a \<longrightarrow> \<not> mine cl)
              \<and> cellAt g1 r c = Some (cl\<lparr>open := True\<rparr>))"
    by (simp add: opensTo_def)
  from assms(2) have 2: "cellAt g2 r c = cellAt g1 r c
        \<or> (\<exists>cl. cellAt g1 r c = Some cl \<and> \<not> open cl \<and> \<not> flag cl \<and> (b \<longrightarrow> \<not> mine cl)
              \<and> cellAt g2 r c = Some (cl\<lparr>open := True\<rparr>))"
    by (simp add: opensTo_def)
  from 1 show "cellAt g2 r c = cellAt g r c
        \<or> (\<exists>cl. cellAt g r c = Some cl \<and> \<not> open cl \<and> \<not> flag cl \<and> (a \<and> b \<longrightarrow> \<not> mine cl)
              \<and> cellAt g2 r c = Some (cl\<lparr>open := True\<rparr>))"
  proof
    assume e1: "cellAt g1 r c = cellAt g r c"
    from 2 show ?thesis
    proof
      assume "cellAt g2 r c = cellAt g1 r c"
      with e1 show ?thesis by simp
    next
      assume "\<exists>cl. cellAt g1 r c = Some cl \<and> \<not> open cl \<and> \<not> flag cl \<and> (b \<longrightarrow> \<not> mine cl)
              \<and> cellAt g2 r c = Some (cl\<lparr>open := True\<rparr>)"
      then obtain cl where "cellAt g1 r c = Some cl" "\<not> open cl" "\<not> flag cl" "b \<longrightarrow> \<not> mine cl"
        "cellAt g2 r c = Some (cl\<lparr>open := True\<rparr>)"
        by blast
      with e1 show ?thesis by (intro disjI2 exI [of _ cl]) simp
    qed
  next
    assume "\<exists>cl. cellAt g r c = Some cl \<and> \<not> open cl \<and> \<not> flag cl \<and> (a \<longrightarrow> \<not> mine cl)
              \<and> cellAt g1 r c = Some (cl\<lparr>open := True\<rparr>)"
    then obtain cl where c: "cellAt g r c = Some cl" "\<not> open cl" "\<not> flag cl" "a \<longrightarrow> \<not> mine cl"
      "cellAt g1 r c = Some (cl\<lparr>open := True\<rparr>)"
      by blast
    from 2 c(5) have "cellAt g2 r c = cellAt g1 r c" by auto
    with c show ?thesis by (intro disjI2 exI [of _ cl]) simp
  qed
qed

lemma opensTo_weaken: "opensTo True g g' \<Longrightarrow> opensTo b g g'"
  by (auto simp: opensTo_def)

lemma openSet_opensTo:
  assumes "openSet X g g'" "\<forall>p \<in> X. openable g p"
  shows "opensTo True g g'"
  unfolding opensTo_def
proof (intro allI)
  fix r c
  from assms(1) have e: "cellAt g' r c
      = map_option (\<lambda>cl. if (r, c) \<in> X then cl\<lparr>open := True\<rparr> else cl) (cellAt g r c)"
    by (simp add: openSet_def)
  show "cellAt g' r c = cellAt g r c
        \<or> (\<exists>cl. cellAt g r c = Some cl \<and> \<not> open cl \<and> \<not> flag cl \<and> (True \<longrightarrow> \<not> mine cl)
              \<and> cellAt g' r c = Some (cl\<lparr>open := True\<rparr>))"
  proof (cases "(r, c) \<in> X")
    case True
    with assms(2) have "openable g (r, c)" by blast
    with e True show ?thesis by (auto simp: openable_def split: option.splits)
  next
    case False
    with e show ?thesis by (simp add: option.map_ident)
  qed
qed

lemma openCell_opensTo:
  assumes "openCell g r c = (g', res)"
  shows "opensTo (\<not> hitMine res) g g'"
proof (cases "cellAt g r c")
  case None
  with assms show ?thesis by (auto simp: openCell_def opensTo_refl)
next
  case (Some cl)
  show ?thesis
  proof (cases "open cl \<or> flag cl")
    case True
    with assms Some show ?thesis by (auto simp: openCell_def opensTo_refl)
  next
    case nf: False
    show ?thesis
    proof (cases "mine cl")
      case True
      with assms Some nf have "g' = setCell g r c (cl\<lparr>open := True\<rparr>)" "hitMine res"
        by (auto simp: openCell_def)
      with Some nf show ?thesis
        by (auto simp: opensTo_def cellAt_setCell)
    next
      case False
      from openCell_closed_safe [OF Some _ _ False assms] nf
      have "\<not> hitMine res" "openSet (reach g {(r, c)}) g g'" by auto
      with openSet_opensTo [of "reach g {(r, c)}" g g'] reach_openable [of _ g "{(r, c)}"]
      show ?thesis by auto
    qed
  qed
qed

lemma chordNeighbors_opensTo:
  "chordNeighbors g ps = (g', res) \<Longrightarrow> did res \<and> opensTo (\<not> chordHit res) g g'"
proof (induction ps arbitrary: g)
  case Nil
  then show ?case by (auto simp: opensTo_refl)
next
  case (Cons p ps)
  obtain g1 r1 where o: "openCell g (fst p) (snd p) = (g1, r1)"
    by (cases "openCell g (fst p) (snd p)")
  note o1 = openCell_opensTo [OF o]
  show ?case
  proof (cases "hitMine r1")
    case True
    with Cons.prems o have "g' = g1" "chordHit res" "did res" by auto
    with o1 True show ?thesis by simp
  next
    case False
    with Cons.prems o have "chordNeighbors g1 ps = (g', res)" by simp
    from Cons.IH [OF this] opensTo_trans [of "\<not> hitMine r1" g g1 "\<not> chordHit res" g'] o1 False
    show ?thesis by simp
  qed
qed

lemma chordOpen_opensTo:
  "chordOpen g r c = (g', res) \<Longrightarrow> (\<not> did res \<longrightarrow> g' = g) \<and> opensTo (\<not> chordHit res) g g'"
  by (auto simp: chordOpen_def opensTo_refl dest: chordNeighbors_opensTo
      split: option.splits if_splits)

section \<open>Facts about the session\<close>

lemma set_loopCoords:
  "set (loopCoords rows' cols') = {(r, c). 0 \<le> r \<and> r < rows' \<and> 0 \<le> c \<and> c < cols'}"
  by (auto simp: loopCoords_def)

lemma revealCell_cells:
  "revealCell win g p = Inr g' \<Longrightarrow>
   cellAt g (fst p) (snd p) \<noteq> None \<and>
   (\<forall>r c. cellAt g' r c = (if (r, c) = p then map_option (reveal win) (cellAt g r c) else cellAt g r c))"
  by (cases p) (auto simp: revealCell_def reveal_def cellAt_setCell split: option.splits if_splits)

lemma lengths_revealCell: "revealCell win g p = Inr g' \<Longrightarrow> map length g' = map length g"
  by (auto simp: revealCell_def lengths_setCell split: option.splits if_splits)

lemma reveal_idem: "reveal win (reveal win cl) = reveal win cl"
  by (simp add: reveal_def)

lemma revealAll_cells:
  "revealAll win g ps = Inr g' \<Longrightarrow>
   cellAt g' r c = (if (r, c) \<in> set ps then map_option (reveal win) (cellAt g r c) else cellAt g r c)"
proof (induction ps arbitrary: g)
  case Nil
  then show ?case by simp
next
  case (Cons p ps)
  from Cons.prems obtain g1 where 1: "revealCell win g p = Inr g1" and 2: "revealAll win g1 ps = Inr g'"
    by (auto split: sum.splits)
  from revealCell_cells [OF 1] Cons.IH [OF 2] show ?case
    by (auto simp: option.map_comp comp_def reveal_idem)
qed

lemma lengths_revealAll: "revealAll win g ps = Inr g' \<Longrightarrow> map length g' = map length g"
proof (induction ps arbitrary: g)
  case Nil
  then show ?case by simp
next
  case (Cons p ps)
  from Cons.prems obtain g1 where 1: "revealCell win g p = Inr g1" and 2: "revealAll win g1 ps = Inr g'"
    by (auto split: sum.splits)
  from lengths_revealCell [OF 1] Cons.IH [OF 2] show ?case by simp
qed

lemma revealAll_total:
  "\<forall>p \<in> set ps. cellAt g (fst p) (snd p) \<noteq> None \<Longrightarrow> \<exists>g'. revealAll win g ps = Inr g'"
proof (induction ps arbitrary: g)
  case Nil
  then show ?case by simp
next
  case (Cons p ps)
  then obtain cl where cl: "cellAt g (fst p) (snd p) = Some cl" by auto
  then have "\<exists>g1. revealCell win g p = Inr g1"
    by (simp add: revealCell_def)
  then obtain g1 where 1: "revealCell win g p = Inr g1" ..
  have "cellAt g1 (fst q) (snd q) \<noteq> None" if "q \<in> set ps" for q
  proof -
    from that Cons.prems have "cellAt g (fst q) (snd q) \<noteq> None" by simp
    with revealCell_cells [OF 1] show ?thesis by (cases q) auto
  qed
  then have "\<forall>q \<in> set ps. cellAt g1 (fst q) (snd q) \<noteq> None" by blast
  from Cons.IH [OF this] 1 show ?case by auto
qed

lemma gameOver_cells:
  assumes "shaped (grid s) (state.rows s) (state.cols s)"
  shows "\<exists>g'. gameOver win s = Inr (s\<lparr>status := (if win then WON else LOST), grid := g'\<rparr>)
           \<and> map length g' = map length (grid s)
           \<and> (\<forall>r c. cellAt g' r c = map_option (reveal win) (cellAt (grid s) r c))"
proof -
  let ?ps = "loopCoords (state.rows s) (state.cols s)"
  have "\<forall>p \<in> set ?ps. cellAt (grid s) (fst p) (snd p) \<noteq> None"
    using cellAt_shaped [OF assms] by (auto simp: set_loopCoords)
  from revealAll_total [OF this] obtain g' where g': "revealAll win (grid s) ?ps = Inr g'" by blast
  have "cellAt g' r c = map_option (reveal win) (cellAt (grid s) r c)" for r c
    using revealAll_cells [OF g', of r c] cellAt_shaped [OF assms, of r c]
    by (auto simp: set_loopCoords)
  with g' lengths_revealAll [OF g'] show ?thesis
    by (intro exI [of _ g']) (simp add: gameOver_def)
qed

lemma sanitizeCfg_Some:
  "sanitizeCfg ar cfg' = Inr (Some cf) \<Longrightarrow>
     5 \<le> config.rows cf \<and> config.rows cf \<le> 30 \<and> 5 \<le> config.cols cf \<and> config.cols cf \<le> 40
     \<and> 1 \<le> config.mines cf
     \<and> config.mines cf
         \<le> subOp ar (mulOp ar (config.rows cf) (config.cols cf))
              (min 9 (subOp ar (mulOp ar (config.rows cf) (config.cols cf)) 1))
     \<and> (\<exists>raw. cfg' = Some raw \<and> config.rows raw = Inr (Fin (config.rows cf))
            \<and> config.cols raw = Inr (Fin (config.cols cf))
            \<and> config.mines raw = Inr (Fin (config.mines cf)) \<and> label raw = label cf)"
  by (auto simp: sanitizeCfg_def Let_def not_less
      split: option.splits sum.splits jsnum.splits if_splits)


lemma validateCustom_None:
  "validateCustom ar rows' cols' mines' = None \<longleftrightarrow>
     (\<exists>r c m. rows' = Fin r \<and> cols' = Fin c \<and> mines' = Fin m
        \<and> 5 \<le> r \<and> r \<le> 30 \<and> 5 \<le> c \<and> c \<le> 40 \<and> 1 \<le> m \<and> m \<le> maxMines ar r c)"
  by (cases rows'; cases cols'; cases mines')
     (auto simp: validateCustom_def maxMines_def Let_def not_less)




lemma gameOver_keeps:
  "gameOver win s = Inr s' \<Longrightarrow> firstClick s' = firstClick s \<and> placeCalls s' = placeCalls s"
  by (auto simp: gameOver_def Let_def split: sum.splits)

lemma checkWin_keeps:
  "checkWin s = Inr s' \<Longrightarrow> firstClick s' = firstClick s \<and> placeCalls s' = placeCalls s"
  by (auto simp: checkWin_def Let_def dest: gameOver_keeps split: prod.splits if_splits)

lemma ensureMinesPlaced_calls:
  "ensureMinesPlaced rnd r c s = Inr s' \<Longrightarrow>
     \<not> firstClick s' \<and> placeCalls s' = placeCalls s + (if firstClick s then 1 else 0)"
  by (auto simp: ensureMinesPlaced_def split: if_splits sum.splits)

lemma openAt_calls:
  assumes "openAt rnd r c s = Inr s'"
  shows "(status s = LOST \<or> status s = WON \<longrightarrow> s' = s)
       \<and> (\<not> (status s = LOST \<or> status s = WON) \<longrightarrow>
            \<not> firstClick s' \<and> placeCalls s' = placeCalls s + (if firstClick s then 1 else 0))"
proof (cases "status s = LOST \<or> status s = WON")
  case True
  with assms show ?thesis by (simp add: openAt_def)
next
  case False
  with assms obtain s1 where 1: "ensureMinesPlaced rnd r c s = Inr s1"
    by (auto simp: openAt_def split: sum.splits)
  obtain g res where 2: "openCell (grid s1) r c = (g, res)" by (cases "openCell (grid s1) r c")
  show ?thesis
  proof (cases "hitMine res")
    case True
    with assms False 1 2 obtain g' where "gameOver False (s1\<lparr>grid := g'\<rparr>) = Inr s'"
      by (auto simp: openAt_def split: sum.splits)
    from gameOver_keeps [OF this] ensureMinesPlaced_calls [OF 1] False show ?thesis by simp
  next
    case h: False
    with assms False 1 2 have "checkWin (s1\<lparr>grid := g\<rparr>) = Inr s'"
      by (auto simp: openAt_def)
    from checkWin_keeps [OF this] ensureMinesPlaced_calls [OF 1] False show ?thesis by simp
  qed
qed

lemma flagAt_keeps:
  "flagAt r c s = Inr s' \<Longrightarrow> firstClick s' = firstClick s \<and> placeCalls s' = placeCalls s"
  by (auto simp: flagAt_def split: if_splits option.splits prod.splits)

lemma chordAt_keeps:
  "chordAt r c s = Inr s' \<Longrightarrow> firstClick s' = firstClick s \<and> placeCalls s' = placeCalls s"
  by (auto simp: chordAt_def Let_def dest: gameOver_keeps checkWin_keeps
      split: if_splits prod.splits)

lemma perform_calls:
  "perform x s = Inr s' \<Longrightarrow>
     (\<not> firstClick s \<longrightarrow> \<not> firstClick s' \<and> placeCalls s' = placeCalls s)
   \<and> (firstClick s \<longrightarrow> (firstClick s' \<and> placeCalls s' = placeCalls s)
                      \<or> (\<not> firstClick s' \<and> placeCalls s' = placeCalls s + 1))"
proof (cases x)
  case (OpenAt rnd r c)
  assume "perform x s = Inr s'"
  with OpenAt have "openAt rnd r c s = Inr s'" by simp
  from openAt_calls [OF this] show ?thesis by (cases "status s = LOST \<or> status s = WON") auto
next
  case (FlagAt r c)
  assume "perform x s = Inr s'"
  with FlagAt flagAt_keeps [of r c s s'] show ?thesis by auto
next
  case (ChordAt r c)
  assume "perform x s = Inr s'"
  with ChordAt chordAt_keeps [of r c s s'] show ?thesis by auto
qed

lemma run_calls:
  "run xs s = Inr s' \<Longrightarrow>
     (\<not> firstClick s \<longrightarrow> \<not> firstClick s' \<and> placeCalls s' = placeCalls s)
   \<and> (firstClick s \<longrightarrow> (firstClick s' \<and> placeCalls s' = placeCalls s)
                      \<or> (\<not> firstClick s' \<and> placeCalls s' = placeCalls s + 1))"
proof (induction xs arbitrary: s)
  case Nil
  then show ?case by simp
next
  case (Cons x xs)
  from Cons.prems obtain s1 where 1: "perform x s = Inr s1" and 2: "run xs s1 = Inr s'"
    by (auto split: sum.splits)
  from perform_calls [OF 1] Cons.IH [OF 2] show ?case by auto
qed

lemma openCell_hit:
  assumes "openCell g r c = (g', res)" "hitMine res"
  shows "\<exists>cl. cellAt g r c = Some cl \<and> mine cl \<and> \<not> open cl \<and> \<not> flag cl
            \<and> g' = setCell g r c (cl\<lparr>open := True\<rparr>) \<and> opened res = [(r, c)]"
  using assms by (auto simp: openCell_def split: option.splits if_splits prod.splits)

lemma flood_acc: "\<exists>os. snd (flood g st acc) = acc @ os"
proof (induction g st acc rule: flood.induct)
  case (1 g acc)
  then show ?case by simp
next
  case (2 g p stack acc)
  show ?case
  proof (cases "cellAt g (fst p) (snd p)")
    case None
    with 2(1) show ?thesis by simp
  next
    case (Some cl)
    show ?thesis
    proof (cases "open cl \<or> flag cl \<or> mine cl")
      case True
      with Some 2(2) show ?thesis by simp
    next
      case False
      from 2(3) [OF Some False] obtain os where
        "snd (flood (setCell g (fst p) (snd p) (cl\<lparr>open := True\<rparr>))
                ((if num cl = 0 then neighbors (fst p) (snd p) else []) @ stack) (acc @ [p]))
         = (acc @ [p]) @ os"
        by blast
      with Some False show ?thesis by simp
    qed
  qed
qed

lemma openCell_first:
  assumes "cellAt g r c = Some cl" "\<not> open cl" "\<not> flag cl" "\<not> mine cl"
  shows "\<exists>os. opened (snd (openCell g r c)) = (r, c) # os"
proof -
  have o: "opened (snd (openCell g r c)) = snd (flood g [(r, c)] [])"
    using assms by (simp add: openCell_def split: prod.splits del: flood.simps)
  have "flood g [(r, c)] []
        = flood (setCell g r c (cl\<lparr>open := True\<rparr>))
            (if num cl = 0 then neighbors r c else []) [(r, c)]"
    using assms by simp
  with flood_acc [of "setCell g r c (cl\<lparr>open := True\<rparr>)"
      "if num cl = 0 then neighbors r c else []" "[(r, c)]"]
  have "\<exists>os. snd (flood g [(r, c)] []) = (r, c) # os" by simp
  with o show ?thesis by simp
qed

lemma openCell_noop:
  assumes "cellAt g r c = None \<or> (\<exists>cl. cellAt g r c = Some cl \<and> flag cl)"
  shows "openCell g r c = (g, \<lparr>opened = [], hitMine = False\<rparr>)"
  using assms by (auto simp: openCell_def)

lemma checkWin_result:
  assumes "status s \<noteq> WON" and "shaped (grid s) (state.rows s) (state.cols s)"
    and "countOpenSafe (grid s) = (n, tot)"
  shows "\<exists>s'. checkWin s = Inr s'
           \<and> (n = tot \<longrightarrow> status s' = WON)
           \<and> (n \<noteq> tot \<longrightarrow> s' = s)"
proof (cases "n = tot")
  case True
  from gameOver_cells [OF assms(2), of True] assms(1,3) True show ?thesis
    by (auto simp: checkWin_def)
next
  case False
  with assms show ?thesis by (simp add: checkWin_def)
qed

lemma ensureMinesPlaced_status:
  "ensureMinesPlaced rnd r c s = Inr s1 \<Longrightarrow>
     (status s1 = status s \<or> status s1 = RUNNING)
     \<and> state.rows s1 = state.rows s \<and> state.cols s1 = state.cols s
     \<and> map length (grid s1) = map length (grid s)"
  by (auto simp: ensureMinesPlaced_def dest: lengths_placeMines split: if_splits sum.splits)

section \<open>Facts about mine placement and the reachable states\<close>

lemma pick_subset: "set (pick rnd n xs) \<subseteq> set xs"
proof (induction n arbitrary: xs)
  case 0
  then show ?case by simp
next
  case (Suc n)
  show ?case
  proof (cases "xs = []")
    case True
    then show ?thesis by simp
  next
    case False
    let ?i = "rnd n mod length xs"
    from False have i: "?i < length xs" by simp
    have "set (take ?i xs @ drop (Suc ?i) xs) \<subseteq> set xs"
      using set_take_subset [of ?i xs] set_drop_subset [of "Suc ?i" xs] by auto
    with Suc.IH [of "take ?i xs @ drop (Suc ?i) xs"] i False show ?thesis
      by (auto simp: Let_def)
  qed
qed

lemma safeRegion_clicked:
  assumes "cellAt g r c \<noteq> None"
  shows "(r, c) \<in> set (safeRegion g r c)"
proof -
  let ?cap = "min 9 (int (totalCells g) - 1)"
  obtain k where k: "nat (max 1 ?cap) = Suc k"
    by (cases "nat (max 1 ?cap)") auto
  from assms show ?thesis
    by (simp add: safeRegion_def Let_def k)
qed

lemma length_safeRegion: "length (safeRegion g r c) \<le> 9"
proof -
  let ?xs = "(r, c) # neighbors r c"
  have "length (filter (\<lambda>(r, c). cellAt g r c \<noteq> None) ?xs) \<le> length ?xs"
    by (rule length_filter_le)
  also have "length ?xs = 9" by (simp add: neighbors_def)
  finally show ?thesis by (simp add: safeRegion_def Let_def)
qed

lemma placeMines_cell:
  assumes "placeMines rnd g n sr sc = Inr g'"
  shows "cellAt g r c = None \<Longrightarrow> cellAt g' r c = None"
    and "cellAt g r c = Some cl \<Longrightarrow>
           \<exists>cl'. cellAt g' r c = Some cl' \<and> open cl' = open cl \<and> flag cl' = flag cl
               \<and> (mine cl' \<longrightarrow> mine cl \<or> (r, c) \<notin> set (safeRegion g sr sc))"
proof -
  let ?region = "safeRegion g sr sc"
  let ?cands = "filter (\<lambda>p. p \<notin> set ?region) (positions g)"
  let ?chosen = "pick rnd (nat n) ?cands"
  let ?g1 = "mapGrid (\<lambda>p cl. if p \<in> set ?chosen then cl\<lparr>mine := True\<rparr> else cl) g"
  let ?f2 = "\<lambda>p cl. if mine cl then cl
                 else cl\<lparr>num := length (filter (isMineAt ?g1) (neighbors (fst p) (snd p)))\<rparr>"
  from assms have g': "g' = mapGrid ?f2 ?g1"
    by (auto simp: placeMines_def Let_def split: if_splits)
  show "cellAt g r c = None \<Longrightarrow> cellAt g' r c = None"
    by (simp add: g' cellAt_mapGrid)
  have ch: "(r, c) \<in> set ?chosen \<Longrightarrow> (r, c) \<notin> set ?region"
    using pick_subset [of rnd "nat n" ?cands] by auto
  assume "cellAt g r c = Some cl"
  then show "\<exists>cl'. cellAt g' r c = Some cl' \<and> open cl' = open cl \<and> flag cl' = flag cl
               \<and> (mine cl' \<longrightarrow> mine cl \<or> (r, c) \<notin> set ?region)"
    using ch by (simp add: g' cellAt_mapGrid)
qed

lemma placeMines_clicked_safe:
  assumes "placeMines rnd g n r c = Inr g'"
    and "\<forall>r' c' cl. cellAt g r' c' = Some cl \<longrightarrow> \<not> mine cl"
  shows "\<not> isMineAt g' (r, c)"
proof (cases "cellAt g r c")
  case None
  from placeMines_cell(1) [OF assms(1) None] show ?thesis by (simp add: isMineAt_def)
next
  case (Some cl)
  from placeMines_cell(2) [OF assms(1) Some] safeRegion_clicked [of g r c] Some assms(2)
  show ?thesis by (auto simp: isMineAt_def)
qed

lemma totalCells_shaped:
  assumes "shaped g R C"
  shows "totalCells g = nat R * nat C"
proof -
  have "totalCells g = sum_list (map length g)"
    by (simp add: totalCells_def length_concat)
  also have "\<dots> = sum_list (replicate (nat R) (nat C))"
    using assms by (simp add: shaped_def)
  also have "\<dots> = nat R * nat C" by (simp add: sum_list_replicate)
  finally show ?thesis .
qed

lemma placeMines_total:
  assumes "shaped g R C" "0 \<le> R" "0 \<le> C" "n \<le> R * C - 9"
  shows "\<exists>g'. placeMines rnd g n sr sc = Inr g'"
proof -
  from totalCells_shaped [OF assms(1)] assms(2,3) have "int (totalCells g) = R * C"
    by (simp add: nat_mult_distrib)
  with length_safeRegion [of g sr sc] assms(4)
  have "\<not> n > int (totalCells g) - int (length (safeRegion g sr sc))" by simp
  then show ?thesis by (simp add: placeMines_def Let_def)
qed

lemma length_filter_conj_le:
  "length (filter (\<lambda>x. P x \<and> Q x) xs) \<le> length (filter P xs)"
  by (induction xs) auto

lemma filter_length_eq:
  "length (filter (\<lambda>x. P x \<and> Q x) xs) = length (filter P xs) \<Longrightarrow> x \<in> set xs \<Longrightarrow> P x \<Longrightarrow> Q x"
proof (induction xs)
  case Nil
  then show ?case by simp
next
  case (Cons y ys)
  note le = length_filter_conj_le [of P Q ys]
  show ?case
  proof (cases "P y")
    case True
    show ?thesis
    proof (cases "Q y")
      case q: True
      with True Cons show ?thesis by auto
    next
      case False
      with True Cons.prems(1) le show ?thesis by simp
    qed
  next
    case False
    with Cons show ?thesis by auto
  qed
qed

lemma cellAt_in_concat: "cellAt g r c = Some cl \<Longrightarrow> cl \<in> set (concat g)"
  by (auto simp: cellAt_def split: if_splits intro!: bexI [of _ "g ! nat r"])

lemma countOpenSafe_all_open:
  assumes "countOpenSafe g = (n, n)" "cellAt g r c = Some cl" "\<not> mine cl"
  shows "open cl"
proof -
  from assms(1) have "length (filter (\<lambda>cl. \<not> mine cl \<and> open cl) (concat g))
      = length (filter (\<lambda>cl. \<not> mine cl) (concat g))"
    by (simp add: countOpenSafe_def)
  from filter_length_eq [OF this cellAt_in_concat [OF assms(2)] assms(3)] show ?thesis .
qed

lemma opensTo_clean: "opensTo b g g' \<Longrightarrow> clean g \<Longrightarrow> clean g'"
  unfolding opensTo_def clean_def
proof (intro allI impI)
  fix r c cl
  assume a: "\<forall>r c. cellAt g' r c = cellAt g r c
        \<or> (\<exists>cl. cellAt g r c = Some cl \<and> \<not> open cl \<and> \<not> flag cl \<and> (b \<longrightarrow> \<not> mine cl)
              \<and> cellAt g' r c = Some (cl\<lparr>open := True\<rparr>))"
    and c: "\<forall>r c cl. cellAt g r c = Some cl \<longrightarrow> \<not> (open cl \<and> flag cl)"
    and g': "cellAt g' r c = Some cl"
  from a have "cellAt g' r c = cellAt g r c
        \<or> (\<exists>cl. cellAt g r c = Some cl \<and> \<not> open cl \<and> \<not> flag cl \<and> (b \<longrightarrow> \<not> mine cl)
              \<and> cellAt g' r c = Some (cl\<lparr>open := True\<rparr>))"
    by blast
  then show "\<not> (open cl \<and> flag cl)"
  proof
    assume "cellAt g' r c = cellAt g r c"
    with g' have "cellAt g r c = Some cl" by simp
    with c show ?thesis by blast
  next
    assume "\<exists>cl. cellAt g r c = Some cl \<and> \<not> open cl \<and> \<not> flag cl \<and> (b \<longrightarrow> \<not> mine cl)
              \<and> cellAt g' r c = Some (cl\<lparr>open := True\<rparr>)"
    with g' show ?thesis by auto
  qed
qed

lemma opensTo_safeOpen: "opensTo True g g' \<Longrightarrow> safeOpen g \<Longrightarrow> safeOpen g'"
  unfolding opensTo_def safeOpen_def
proof (intro allI impI)
  fix r c cl
  assume a: "\<forall>r c. cellAt g' r c = cellAt g r c
        \<or> (\<exists>cl. cellAt g r c = Some cl \<and> \<not> open cl \<and> \<not> flag cl \<and> (True \<longrightarrow> \<not> mine cl)
              \<and> cellAt g' r c = Some (cl\<lparr>open := True\<rparr>))"
    and c: "\<forall>r c cl. cellAt g r c = Some cl \<and> open cl \<longrightarrow> \<not> mine cl"
    and g': "cellAt g' r c = Some cl \<and> open cl"
  from a have "cellAt g' r c = cellAt g r c
        \<or> (\<exists>cl. cellAt g r c = Some cl \<and> \<not> open cl \<and> \<not> flag cl \<and> (True \<longrightarrow> \<not> mine cl)
              \<and> cellAt g' r c = Some (cl\<lparr>open := True\<rparr>))"
    by blast
  then show "\<not> mine cl"
  proof
    assume "cellAt g' r c = cellAt g r c"
    with g' have "cellAt g r c = Some cl \<and> open cl" by simp
    with c show ?thesis by blast
  next
    assume "\<exists>cl. cellAt g r c = Some cl \<and> \<not> open cl \<and> \<not> flag cl \<and> (True \<longrightarrow> \<not> mine cl)
              \<and> cellAt g' r c = Some (cl\<lparr>open := True\<rparr>)"
    with g' show ?thesis by auto
  qed
qed

lemma cellAt_fresh:
  "cellAt (replicate n (replicate m x)) r c = Some cl \<Longrightarrow> cl = x"
  by (auto simp: cellAt_def split: if_splits)

lemma inv_newGame:
  assumes "5 \<le> state.rows s" "5 \<le> state.cols s" "state.mines s \<le> state.rows s * state.cols s - 9"
    and "newGame createEmptyGrid s = Inr s'"
  shows "sessionInv s'"
proof -
  from assms have s': "s' = s\<lparr>grid := replicate (nat (state.rows s)) (replicate (nat (state.cols s)) emptyCell),
      status := READY, firstClick := True\<rparr>"
    by (auto simp: newGame_def createEmptyGrid_def split: if_splits)
  show ?thesis
    unfolding sessionInv_def s' using assms(1-3)
    by (auto simp: shaped_def emptyCell_def dest!: cellAt_fresh)
qed

lemma inv_applyConfig:
  assumes "applyConfig exactArith createEmptyGrid cfg' s = Inr s'"
  shows "sessionInv s'"
proof -
  from assms obtain res where res: "sanitizeCfg exactArith cfg' = Inr res"
    by (auto simp: applyConfig_def split: sum.splits)
  let ?safe = "case res of Some cf \<Rightarrow> cf | None \<Rightarrow> beginner"
  let ?s1 = "s\<lparr>cfg := ?safe, rows := config.rows ?safe, cols := config.cols ?safe,
                mines := config.mines ?safe\<rparr>"
  from assms res have n: "newGame createEmptyGrid ?s1 = Inr s'"
    by (simp add: applyConfig_def Let_def)
  have b: "5 \<le> config.rows ?safe \<and> 5 \<le> config.cols ?safe
      \<and> config.mines ?safe \<le> config.rows ?safe * config.cols ?safe - 9"
  proof (cases res)
    case None
    then show ?thesis by (simp add: beginner_def)
  next
    case (Some cf)
    with res have "sanitizeCfg exactArith cfg' = Inr (Some cf)" by simp
    from sanitizeCfg_Some [OF this] have r: "5 \<le> config.rows cf" and c: "5 \<le> config.cols cf"
      and m: "config.mines cf \<le> config.rows cf * config.cols cf - min 9 (config.rows cf * config.cols cf - 1)"
      by (auto simp: exactArith_def)
    from r c have "5 * 5 \<le> config.rows cf * config.cols cf"
      by (intro mult_mono) auto
    with m have "config.mines cf \<le> config.rows cf * config.cols cf - 9" by simp
    with r c Some show ?thesis by simp
  qed
  show ?thesis by (rule inv_newGame [OF _ _ _ n]) (use b in simp_all)
qed

lemma inv_gameOver:
  assumes "shaped (grid s) (state.rows s) (state.cols s)"
    and "5 \<le> state.rows s" "5 \<le> state.cols s" "state.mines s \<le> state.rows s * state.cols s - 9"
    and "\<not> firstClick s" and "clean (grid s)"
    and "win \<longrightarrow> (\<forall>r c cl. cellAt (grid s) r c = Some cl \<longrightarrow> \<not> mine cl \<longrightarrow> open cl)"
    and "gameOver win s = Inr s'"
  shows "sessionInv s'"
proof -
  from gameOver_cells [OF assms(1), of win] assms(8) obtain g' where
    s': "s' = s\<lparr>status := (if win then WON else LOST), grid := g'\<rparr>"
    and l: "map length g' = map length (grid s)"
    and c: "\<And>r c. cellAt g' r c = map_option (reveal win) (cellAt (grid s) r c)"
    by auto
  have "mine cl' \<and> \<not> win" if "cellAt g' r c = Some cl'" "open cl'" "flag cl'" for r c cl'
  proof -
    from that(1) c [of r c] obtain cl where cl: "cellAt (grid s) r c = Some cl" "cl' = reveal win cl"
      by (cases "cellAt (grid s) r c") auto
    from cl that(3) have f: "flag cl" by (simp add: reveal_def)
    with assms(6) cl(1) have no: "\<not> open cl" by (auto simp: clean_def)
    with cl(2) that(2) have m: "mine cl = (\<not> win)" by (simp add: reveal_def)
    with assms(7) cl(1) no have "\<not> win" by auto
    with m cl(2) show ?thesis by (simp add: reveal_def)
  qed
  then show ?thesis
    unfolding sessionInv_def s' using assms(1-5) l by (auto simp: shaped_def)
qed

lemma inv_checkWin:
  assumes "shaped (grid s) (state.rows s) (state.cols s)"
    and "5 \<le> state.rows s" "5 \<le> state.cols s" "state.mines s \<le> state.rows s * state.cols s - 9"
    and "\<not> firstClick s" and "clean (grid s)" and "status s = RUNNING"
    and "checkWin s = Inr s'"
  shows "sessionInv s'"
proof -
  obtain n tot where c: "countOpenSafe (grid s) = (n, tot)" by (cases "countOpenSafe (grid s)")
  show ?thesis
  proof (cases "n = tot")
    case True
    with assms(7,8) c have g: "gameOver True s = Inr s'" by (simp add: checkWin_def)
    have "\<forall>r c cl. cellAt (grid s) r c = Some cl \<longrightarrow> \<not> mine cl \<longrightarrow> open cl"
      using countOpenSafe_all_open c True by blast
    then show ?thesis
      by (intro inv_gameOver [OF assms(1-6) _ g]) simp
  next
    case False
    with assms(8) c have "s' = s" by (simp add: checkWin_def)
    with assms show ?thesis by (auto simp: sessionInv_def clean_def)
  qed
qed

lemma markOpen_open:
  assumes "cellAt g r c = Some cl" "open cl" "markOpen g r c = Inr g2"
  shows "map length g2 = map length g \<and> (\<forall>r' c'. cellAt g2 r' c' = cellAt g r' c')"
proof -
  from assms(2) have "cl\<lparr>open := True\<rparr> = cl" by simp
  with assms show ?thesis
    by (auto simp: markOpen_def lengths_setCell cellAt_setCell)
qed

lemma ensureMinesPlaced_inv:
  assumes "sessionInv s" "status s \<noteq> LOST" "status s \<noteq> WON"
    and "ensureMinesPlaced rnd r c s = Inr s1"
  shows "shaped (grid s1) (state.rows s1) (state.cols s1)
       \<and> 5 \<le> state.rows s1 \<and> 5 \<le> state.cols s1
       \<and> state.mines s1 \<le> state.rows s1 * state.cols s1 - 9
       \<and> \<not> firstClick s1 \<and> clean (grid s1) \<and> status s1 = RUNNING"
proof (cases "firstClick s")
  case False
  with assms(4) have "s1 = s" by (simp add: ensureMinesPlaced_def)
  moreover from False assms(1-3) have "status s = RUNNING"
    by (cases "status s") (auto simp: sessionInv_def)
  ultimately show ?thesis using assms(1) False by (auto simp: sessionInv_def clean_def)
next
  case True
  with assms(4) obtain g1 where p: "placeMines rnd (grid s) (state.mines s) r c = Inr g1"
    and s1: "s1 = s\<lparr>grid := g1, firstClick := False, status := RUNNING,
                     placeCalls := Suc (placeCalls s)\<rparr>"
    by (auto simp: ensureMinesPlaced_def split: sum.splits)
  from True assms(1) have closed: "\<forall>r c cl. cellAt (grid s) r c = Some cl \<longrightarrow> \<not> open cl"
    by (auto simp: sessionInv_def)
  have "\<not> open cl'" if "cellAt g1 r' c' = Some cl'" for r' c' cl'
  proof (cases "cellAt (grid s) r' c'")
    case None
    from placeMines_cell(1) [OF p None] that show ?thesis by simp
  next
    case (Some cl)
    from placeMines_cell(2) [OF p Some] that closed Some show ?thesis by auto
  qed
  then have "clean g1" by (auto simp: clean_def)
  with lengths_placeMines [OF p] assms(1) show ?thesis
    unfolding s1 by (auto simp: sessionInv_def shaped_def)
qed

lemma inv_openAt:
  assumes "sessionInv s" "openAt rnd r c s = Inr s'"
  shows "sessionInv s'"
proof (cases "status s = LOST \<or> status s = WON")
  case True
  with assms show ?thesis by (simp add: openAt_def)
next
  case False
  with assms(2) obtain s1 where e: "ensureMinesPlaced rnd r c s = Inr s1"
    by (auto simp: openAt_def split: sum.splits)
  from ensureMinesPlaced_inv [OF assms(1) _ _ e] False have
    i: "shaped (grid s1) (state.rows s1) (state.cols s1)"
      "5 \<le> state.rows s1" "5 \<le> state.cols s1"
      "state.mines s1 \<le> state.rows s1 * state.cols s1 - 9"
      "\<not> firstClick s1" "clean (grid s1)" "status s1 = RUNNING"
    by auto
  obtain g res where o: "openCell (grid s1) r c = (g, res)" by (cases "openCell (grid s1) r c")
  from lengths_openCell [of "grid s1" r c] o have lg: "map length g = map length (grid s1)" by simp
  from opensTo_clean [OF openCell_opensTo [OF o] i(6)] have cg: "clean g" .
  show ?thesis
  proof (cases "hitMine res")
    case True
    from openCell_hit [OF o True] obtain cl where
      cl: "cellAt (grid s1) r c = Some cl" "g = setCell (grid s1) r c (cl\<lparr>open := True\<rparr>)"
      by blast
    then have gc: "cellAt g r c = Some (cl\<lparr>open := True\<rparr>)" by (simp add: cellAt_setCell)
    from assms(2) False e o True obtain g2 where m: "markOpen g r c = Inr g2"
      and go: "gameOver False (s1\<lparr>grid := g2\<rparr>) = Inr s'"
      by (auto simp: openAt_def split: sum.splits)
    from markOpen_open [OF gc _ m] have l2: "map length g2 = map length g"
      and c2: "\<And>r' c'. cellAt g2 r' c' = cellAt g r' c'"
      by auto
    from cg c2 have "clean g2" by (simp add: clean_def)
    with i l2 lg show ?thesis
      by (intro inv_gameOver [OF _ _ _ _ _ _ _ go]) (auto simp: shaped_def)
  next
    case False
    with assms(2) \<open>\<not> (status s = LOST \<or> status s = WON)\<close> e o
    have cw: "checkWin (s1\<lparr>grid := g\<rparr>) = Inr s'"
      by (auto simp: openAt_def)
    from i lg cg show ?thesis
      by (intro inv_checkWin [OF _ _ _ _ _ _ _ cw]) (auto simp: shaped_def)
  qed
qed

lemma inv_chordAt:
  assumes "sessionInv s" "chordAt r c s = Inr s'"
  shows "sessionInv s'"
proof (cases "status s = RUNNING")
  case False
  with assms show ?thesis by (simp add: chordAt_def)
next
  case True
  obtain g res where o: "chordOpen (grid s) r c = (g, res)" by (cases "chordOpen (grid s) r c")
  show ?thesis
  proof (cases "did res")
    case False
    with assms True o show ?thesis by (simp add: chordAt_def)
  next
    case d: True
    from True assms(1) have cl: "clean (grid s)" and nf: "\<not> firstClick s"
      by (auto simp: sessionInv_def clean_def)
    from chordOpen_opensTo [OF o] opensTo_clean cl have cg: "clean g" by blast
    from lengths_chordOpen [of "grid s" r c] o have lg: "map length g = map length (grid s)"
      by simp
    show ?thesis
    proof (cases "chordHit res")
      case h: True
      with assms(2) True o d have go: "gameOver False (s\<lparr>grid := g\<rparr>) = Inr s'"
        by (simp add: chordAt_def)
      from assms(1) nf cg lg show ?thesis
        by (intro inv_gameOver [OF _ _ _ _ _ _ _ go]) (auto simp: sessionInv_def shaped_def)
    next
      case False
      with assms(2) True o d have cw: "checkWin (s\<lparr>grid := g\<rparr>) = Inr s'"
        by (simp add: chordAt_def)
      from assms(1) nf cg lg True show ?thesis
        by (intro inv_checkWin [OF _ _ _ _ _ _ _ cw]) (auto simp: sessionInv_def shaped_def)
    qed
  qed
qed

lemma inv_flagAt:
  assumes "sessionInv s" "flagAt r c s = Inr s'"
  shows "sessionInv s'"
proof (cases "status s = LOST \<or> status s = WON")
  case True
  with assms show ?thesis by (simp add: flagAt_def)
next
  case False
  with assms(2) obtain cl where cl: "cellAt (grid s) r c = Some cl"
    by (auto simp: flagAt_def split: option.splits)
  show ?thesis
  proof (cases "open cl")
    case True
    with assms False cl show ?thesis by (simp add: flagAt_def)
  next
    case no: False
    let ?g = "setCell (grid s) r c (cl\<lparr>flag := \<not> flag cl\<rparr>)"
    from assms(2) False cl no have s': "s' = s\<lparr>grid := ?g\<rparr>"
      by (simp add: flagAt_def toggleFlag_def)
    have c: "cellAt ?g r' c' = (if r' = r \<and> c' = c then Some (cl\<lparr>flag := \<not> flag cl\<rparr>)
                                else cellAt (grid s) r' c')" for r' c'
      by (rule cellAt_setCell [OF cl])
    from assms(1) cl no show ?thesis
      unfolding sessionInv_def s'
      by (auto simp: c shaped_def lengths_setCell split: if_splits)
  qed
qed

lemma reachable_inv: "reachable s \<Longrightarrow> sessionInv s"
proof (induction rule: reachable.induct)
  case (start cfg' s)
  then show ?case by (rule inv_applyConfig)
next
  case (config s cfg' s')
  then show ?case by (auto intro: inv_applyConfig)
next
  case (restart s s')
  from restart.IH have "5 \<le> state.rows s" "5 \<le> state.cols s"
    "state.mines s \<le> state.rows s * state.cols s - 9"
    by (simp_all add: sessionInv_def)
  from inv_newGame [OF this restart.hyps(2)] show ?case .
next
  case (call s x s')
  then show ?case
    by (cases x) (auto intro: inv_openAt inv_flagAt inv_chordAt)
qed

lemma reachable_run: "reachable s \<Longrightarrow> run xs s = Inr s' \<Longrightarrow> reachable s'"
proof (induction xs arbitrary: s)
  case Nil
  then show ?case by simp
next
  case (Cons x xs)
  from Cons.prems(2) obtain s1 where 1: "perform x s = Inr s1" and 2: "run xs s1 = Inr s'"
    by (auto split: sum.splits)
  from reachable.call [OF Cons.prems(1) 1] Cons.IH 2 show ?case by blast
qed

lemma reachable_game5: "reachable game5"
proof -
  have "applyConfig exactArith createEmptyGrid cfg5 initState = Inr game5" by code_simp
  then show ?thesis by (rule reachable.start)
qed

lemma reachable_lost5: "reachable lost5"
proof -
  have "run ops5 game5 = Inr lost5" by code_simp
  with reachable_game5 show ?thesis by (rule reachable_run)
qed

text \<open>
  In a reachable state no call throws after it has changed the state: \<^verbatim>\<open>openAt\<close>,
  \<^verbatim>\<open>chordAt\<close> and \<^verbatim>\<open>newGame\<close> never throw, and \<^verbatim>\<open>flagAt\<close> throws only off the grid, on
  its first read.
\<close>

lemma markOpen_total: "cellAt g r c = Some cl \<Longrightarrow> \<exists>g2. markOpen g r c = Inr g2"
  by (simp add: markOpen_def)

lemma openAt_total:
  assumes "sessionInv s"
  shows "\<exists>s'. openAt rnd r c s = Inr s'"
proof (cases "status s = LOST \<or> status s = WON")
  case True
  then show ?thesis by (simp add: openAt_def)
next
  case False
  from assms have sh: "shaped (grid s) (state.rows s) (state.cols s)"
    and b: "0 \<le> state.rows s" "0 \<le> state.cols s"
      "state.mines s \<le> state.rows s * state.cols s - 9"
    by (auto simp: sessionInv_def)
  from placeMines_total [OF sh b, of rnd r c] have "\<exists>s1. ensureMinesPlaced rnd r c s = Inr s1"
    by (auto simp: ensureMinesPlaced_def)
  then obtain s1 where e: "ensureMinesPlaced rnd r c s = Inr s1" ..
  from ensureMinesPlaced_inv [OF assms _ _ e] False have
    i: "shaped (grid s1) (state.rows s1) (state.cols s1)" "status s1 = RUNNING"
    by auto
  obtain g res where o: "openCell (grid s1) r c = (g, res)" by (cases "openCell (grid s1) r c")
  from lengths_openCell [of "grid s1" r c] o have lg: "map length g = map length (grid s1)" by simp
  show ?thesis
  proof (cases "hitMine res")
    case True
    from openCell_hit [OF o True] obtain cl where
      cl: "cellAt (grid s1) r c = Some cl" "g = setCell (grid s1) r c (cl\<lparr>open := True\<rparr>)"
      by blast
    then have gc: "cellAt g r c = Some (cl\<lparr>open := True\<rparr>)" by (simp add: cellAt_setCell)
    from markOpen_total [OF gc] obtain g2 where m: "markOpen g r c = Inr g2" ..
    from markOpen_open [OF gc _ m] have l2: "map length g2 = map length g" by simp
    with lg i(1) have "shaped (grid (s1\<lparr>grid := g2\<rparr>)) (state.rows (s1\<lparr>grid := g2\<rparr>))
        (state.cols (s1\<lparr>grid := g2\<rparr>))"
      by (simp add: shaped_def)
    from gameOver_cells [OF this, of False] obtain s' where
      "gameOver False (s1\<lparr>grid := g2\<rparr>) = Inr s'" by blast
    with False e o True m show ?thesis by (simp add: openAt_def)
  next
    case nh: False
    from lg i have "shaped (grid (s1\<lparr>grid := g\<rparr>)) (state.rows (s1\<lparr>grid := g\<rparr>))
        (state.cols (s1\<lparr>grid := g\<rparr>))" and "status (s1\<lparr>grid := g\<rparr>) \<noteq> WON"
      by (simp_all add: shaped_def)
    from checkWin_result [OF this(2,1), of "fst (countOpenSafe g)" "snd (countOpenSafe g)"]
    obtain s' where "checkWin (s1\<lparr>grid := g\<rparr>) = Inr s'" by auto
    with False e o nh show ?thesis by (simp add: openAt_def)
  qed
qed

lemma chordAt_total:
  assumes "sessionInv s"
  shows "\<exists>s'. chordAt r c s = Inr s'"
proof (cases "status s = RUNNING")
  case False
  then show ?thesis by (simp add: chordAt_def)
next
  case True
  obtain g res where o: "chordOpen (grid s) r c = (g, res)" by (cases "chordOpen (grid s) r c")
  from lengths_chordOpen [of "grid s" r c] o assms
  have sh: "shaped (grid (s\<lparr>grid := g\<rparr>)) (state.rows (s\<lparr>grid := g\<rparr>)) (state.cols (s\<lparr>grid := g\<rparr>))"
    by (simp add: sessionInv_def shaped_def)
  from True have st: "status (s\<lparr>grid := g\<rparr>) \<noteq> WON" by simp
  from gameOver_cells [OF sh, of False] obtain s1 where
    1: "gameOver False (s\<lparr>grid := g\<rparr>) = Inr s1" by blast
  from checkWin_result [OF st sh, of "fst (countOpenSafe g)" "snd (countOpenSafe g)"]
  obtain s2 where 2: "checkWin (s\<lparr>grid := g\<rparr>) = Inr s2" by auto
  from True o 1 2 show ?thesis by (simp add: chordAt_def Let_def)
qed

lemma flagAt_throws:
  "flagAt r c s = Inl e \<longleftrightarrow>
     e = TypeError \<and> status s \<noteq> LOST \<and> status s \<noteq> WON \<and> cellAt (grid s) r c = None"
  by (auto simp: flagAt_def split: option.splits prod.splits)

lemma perform_total:
  assumes "sessionInv s" "perform x s = Inl e"
  shows "\<exists>r c. x = FlagAt r c \<and> cellAt (grid s) r c = None"
proof (cases x)
  case (OpenAt rnd r c)
  with openAt_total [OF assms(1), of rnd r c] assms(2) show ?thesis by auto
next
  case (FlagAt r c)
  with assms(2) show ?thesis by (simp add: flagAt_throws)
next
  case (ChordAt r c)
  with chordAt_total [OF assms(1), of r c] assms(2) show ?thesis by auto
qed

lemma newGame_total: "sessionInv s \<Longrightarrow> \<exists>s'. newGame createEmptyGrid s = Inr s'"
  by (auto simp: newGame_def createEmptyGrid_def sessionInv_def)

section \<open>Validation of a custom board\<close>

text \<open>
  C6 as amended: \<^verbatim>\<open>validateCustom(rows, cols, mines)\<close> returns \<^verbatim>\<open>null\<close> if and only if the
  three arguments are finite numbers with 5 \<open>\<le>\<close> rows \<open>\<le>\<close> 30, 5 \<open>\<le>\<close> cols \<open>\<le>\<close> 40, mines \<open>\<ge>\<close> 1
  and mines at most the double that \<^verbatim>\<open>rows * cols - Math.min(9, rows * cols - 1)\<close> evaluates
  to, each operation rounding its result; in every other case it returns a message. When
  rows and cols are whole numbers nothing is rounded, and the bound is
  rows * cols - min(9, rows * cols - 1) itself.
\<close>

theorem validateCustom_accepts_iff:
  "(validateCustom doubleArith rows' cols' mines' = None \<longleftrightarrow>
      (\<exists>r c m. rows' = Fin r \<and> cols' = Fin c \<and> mines' = Fin m
         \<and> 5 \<le> r \<and> r \<le> 30 \<and> 5 \<le> c \<and> c \<le> 40 \<and> 1 \<le> m
         \<and> m \<le> roundDouble (roundDouble (r * c) - min 9 (roundDouble (roundDouble (r * c) - 1)))))
   \<and> (\<forall>i j m. validateCustom doubleArith (Fin (of_int i)) (Fin (of_int j)) (Fin m) = None \<longleftrightarrow>
         5 \<le> i \<and> i \<le> 30 \<and> 5 \<le> j \<and> j \<le> 40 \<and> 1 \<le> m
         \<and> m \<le> of_int (i * j - min 9 (i * j - 1)))"
proof (intro conjI allI)
  show "validateCustom doubleArith rows' cols' mines' = None \<longleftrightarrow>
      (\<exists>r c m. rows' = Fin r \<and> cols' = Fin c \<and> mines' = Fin m
         \<and> 5 \<le> r \<and> r \<le> 30 \<and> 5 \<le> c \<and> c \<le> 40 \<and> 1 \<le> m
         \<and> m \<le> roundDouble (roundDouble (r * c) - min 9 (roundDouble (roundDouble (r * c) - 1))))"
    unfolding validateCustom_None by (simp add: maxMines_def doubleArith_def Let_def)
next
  fix i j :: int and m :: rat
  show "validateCustom doubleArith (Fin (of_int i)) (Fin (of_int j)) (Fin m) = None \<longleftrightarrow>
         5 \<le> i \<and> i \<le> 30 \<and> 5 \<le> j \<and> j \<le> 40 \<and> 1 \<le> m
         \<and> m \<le> of_int (i * j - min 9 (i * j - 1))"
  proof (cases "5 \<le> i \<and> i \<le> 30 \<and> 5 \<le> j \<and> j \<le> 40")
    case True
    then have "maxMines doubleArith (of_int i) (of_int j) = of_int (i * j - min 9 (i * j - 1))"
      by (intro maxMines_of_int size_product) simp_all
    with True show ?thesis unfolding validateCustom_None by simp
  next
    case False
    then show ?thesis unfolding validateCustom_None by auto
  qed
qed

theorem validateCustom_accepts_iff_witness:
  "validateCustom doubleArith (Fin 9) (Fin 9) (Fin 10) = None
   \<and> validateCustom doubleArith (Fin 5) (Fin 5) (Fin 17) = Some (MsgMinesMax 16)
   \<and> validateCustom doubleArith (Fin 5) NaN (Fin 1) = Some MsgInvalidNumber"
proof -
  from validateCustom_accepts_iff [of "Fin 9" "Fin 9" "Fin 10"]
  have "validateCustom doubleArith (Fin (of_int 9)) (Fin (of_int 9)) (Fin 10) = None \<longleftrightarrow>
         5 \<le> (9::int) \<and> (9::int) \<le> 30 \<and> 5 \<le> (9::int) \<and> (9::int) \<le> 40 \<and> 1 \<le> (10::rat)
         \<and> (10::rat) \<le> of_int (9 * 9 - min 9 (9 * 9 - 1))"
    by blast
  then have 1: "validateCustom doubleArith (Fin 9) (Fin 9) (Fin 10) = None" by simp
  have 2: "validateCustom doubleArith (Fin 5) (Fin 5) (Fin 17) = Some (MsgMinesMax 16)"
    by code_simp
  have 3: "validateCustom doubleArith (Fin 5) NaN (Fin 1) = Some MsgInvalidNumber"
    by code_simp
  from 1 2 3 show ?thesis by blast
qed

text \<open>
  C6 as stated, with the bound taken exactly, fails for a size that is not whole. The double
  of \<^verbatim>\<open>5.1\<close> is a little less than 5.1, five times it rounds up to 25.5, and the bound the
  code computes is 16.5: \<^verbatim>\<open>validateCustom(5, 5.1, 16.5)\<close> returns \<^verbatim>\<open>null\<close>, while 16.5 is more than
  rows * cols - min(9, rows * cols - 1) for these rows and cols.
\<close>

theorem validateCustom_rounded_bound:
  "roundDouble (51 / 10) = d51
   \<and> validateCustom doubleArith (Fin 5) (Fin d51) (Fin (33 / 2)) = None
   \<and> \<not> (33 / 2 \<le> 5 * d51 - min 9 (5 * d51 - 1))"
proof -
  have 1: "roundDouble (51 / 10) = d51" by code_simp
  have 2: "validateCustom doubleArith (Fin 5) (Fin d51) (Fin (33 / 2)) = None" by code_simp
  have 3: "\<not> (33 / 2 \<le> 5 * d51 - min 9 (5 * d51 - 1))" by (simp add: d51_def)
  from 1 2 3 show ?thesis by blast
qed

section \<open>The end of a game\<close>

text \<open>
  C9: \<^verbatim>\<open>gameOver\<close> mutates the grid. On a loss every mine cell gets \<^verbatim>\<open>open = true\<close>, on a
  win every cell that is not a mine gets \<^verbatim>\<open>open = true\<close>; the cells of the other kind and
  all \<^verbatim>\<open>mine\<close>, \<^verbatim>\<open>flag\<close> and \<^verbatim>\<open>num\<close> fields stay as they are, and of the other fields of
  the session only the status changes. The grid has the dimensions the session stores, so
  that the two loops meet every cell and no read fails.
\<close>

theorem gameOver_reveals:
  assumes "shaped (grid s) (state.rows s) (state.cols s)"
  shows "\<exists>s'. gameOver win s = Inr s'
           \<and> s' = s\<lparr>status := (if win then WON else LOST), grid := grid s'\<rparr>
           \<and> (\<forall>r c. cellAt (grid s') r c
                 = map_option (\<lambda>cl. cl\<lparr>open := open cl \<or> mine cl = (\<not> win)\<rparr>) (cellAt (grid s) r c))"
  using gameOver_cells [OF assms, of win] by (auto simp: reveal_def [abs_def])

theorem gameOver_reveals_witness:
  "shaped (grid (demoState RUNNING)) (state.rows (demoState RUNNING)) (state.cols (demoState RUNNING))
   \<and> (\<exists>s'. gameOver False (demoState RUNNING) = Inr s'
         \<and> status s' = LOST
         \<and> cellAt (grid s') 0 0 = Some \<lparr>mine = True, open = True, flag = True, num = 0\<rparr>
         \<and> cellAt (grid s') 0 1 = Some \<lparr>mine = False, open = False, flag = False, num = 1\<rparr>)"
proof -
  have sh: "shaped (grid (demoState RUNNING)) (state.rows (demoState RUNNING)) (state.cols (demoState RUNNING))"
    by (simp add: demoState_def demoGrid_def shaped_def)
  from gameOver_reveals [OF sh, of False] obtain s' where
    1: "gameOver False (demoState RUNNING) = Inr s'"
    and 2: "s' = (demoState RUNNING)\<lparr>status := LOST, grid := grid s'\<rparr>"
    and 3: "\<And>r c. cellAt (grid s') r c
          = map_option (\<lambda>cl. cl\<lparr>open := open cl \<or> mine cl = (\<not> False)\<rparr>) (cellAt (grid (demoState RUNNING)) r c)"
    by auto
  from 2 have "status s' = LOST" by (cases s') simp
  moreover have "cellAt (grid s') 0 0 = Some \<lparr>mine = True, open = True, flag = True, num = 0\<rparr>"
    by (subst 3) (simp add: demoState_def demoGrid_def cellAt_def)
  moreover have "cellAt (grid s') 0 1 = Some \<lparr>mine = False, open = False, flag = False, num = 1\<rparr>"
    by (subst 3) (simp add: demoState_def demoGrid_def cellAt_def)
  ultimately show ?thesis using sh 1 by blast
qed

section \<open>Terminal states\<close>

text \<open>
  C4: once the status is \<^verbatim>\<open>WON\<close> or \<^verbatim>\<open>LOST\<close>, \<^verbatim>\<open>openAt\<close>, \<^verbatim>\<open>flagAt\<close> and \<^verbatim>\<open>chordAt\<close>
  return without effect: the whole session state, the grid and the status with it, is
  unchanged. A new game leaves the terminal status.
\<close>

theorem terminal_rejects:
  assumes "status s = WON \<or> status s = LOST"
  shows "openAt rnd r c s = Inr s \<and> flagAt r c s = Inr s \<and> chordAt r c s = Inr s
         \<and> (\<forall>s'. newGame createEmptyGrid s = Inr s' \<longrightarrow> status s' = READY \<and> firstClick s')"
  using assms by (auto simp: openAt_def flagAt_def chordAt_def newGame_def split: sum.splits)

theorem terminal_rejects_witness:
  "(status (demoState LOST) = WON \<or> status (demoState LOST) = LOST)
   \<and> openAt (\<lambda>k. 0) 0 1 (demoState LOST) = Inr (demoState LOST)
   \<and> flagAt 0 1 (demoState LOST) = Inr (demoState LOST)
   \<and> chordAt 0 1 (demoState LOST) = Inr (demoState LOST)"
proof -
  have h: "status (demoState LOST) = WON \<or> status (demoState LOST) = LOST"
    by (simp add: demoState_def)
  from terminal_rejects [OF h, of "\<lambda>k. 0" 0 1] h show ?thesis by simp
qed

section \<open>Applying a configuration\<close>




section \<open>Winning\<close>

text \<open>
  C5: after a reveal (\<^verbatim>\<open>openAt\<close> on a game that is not over, no mine hit) and after a chord
  that did something and hit no mine, the session reads \<^verbatim>\<open>countOpenSafe\<close> on the resulting
  grid and the status becomes \<^verbatim>\<open>WON\<close> exactly when \<^verbatim>\<open>opened === totalSafe\<close>, the number of
  open cells that are not mines against the number of cells that are not mines; otherwise
  the call ends with the grid the engine returned and the status unchanged.
\<close>

theorem win_when_all_safe_open:
  assumes "shaped (grid s) (state.rows s) (state.cols s)"
  shows "(status s \<noteq> WON \<and> status s \<noteq> LOST \<and> ensureMinesPlaced rnd r c s = Inr s1
            \<and> openCell (grid s1) r c = (g, res) \<and> \<not> hitMine res \<and> countOpenSafe g = (n, tot)
          \<longrightarrow> (\<exists>s'. openAt rnd r c s = Inr s' \<and> (status s' = WON \<longleftrightarrow> n = tot)
                    \<and> (n \<noteq> tot \<longrightarrow> s' = s1\<lparr>grid := g\<rparr>)))
       \<and> (status s = RUNNING \<and> chordOpen (grid s) r c = (g, cres) \<and> did cres \<and> \<not> chordHit cres
            \<and> countOpenSafe g = (n, tot)
          \<longrightarrow> (\<exists>s'. chordAt r c s = Inr s' \<and> (status s' = WON \<longleftrightarrow> n = tot)
                    \<and> (n \<noteq> tot \<longrightarrow> s' = s\<lparr>grid := g\<rparr>)))
       \<and> countOpenSafe g = (length (filter (\<lambda>cl. \<not> mine cl \<and> open cl) (concat g)),
                              length (filter (\<lambda>cl. \<not> mine cl) (concat g)))"
proof (intro conjI impI)
  assume a: "status s \<noteq> WON \<and> status s \<noteq> LOST \<and> ensureMinesPlaced rnd r c s = Inr s1
            \<and> openCell (grid s1) r c = (g, res) \<and> \<not> hitMine res \<and> countOpenSafe g = (n, tot)"
  let ?s2 = "s1\<lparr>grid := g\<rparr>"
  from a ensureMinesPlaced_status [of rnd r c s s1] have st: "status ?s2 \<noteq> WON"
    and d: "state.rows s1 = state.rows s" "state.cols s1 = state.cols s"
      "map length (grid s1) = map length (grid s)"
    by auto
  have "map length g = map length (grid s1)"
    using a lengths_openCell [of "grid s1" r c] by simp
  with d assms have sh: "shaped (grid ?s2) (state.rows ?s2) (state.cols ?s2)"
    by (simp add: shaped_def)
  from a have c: "countOpenSafe (grid ?s2) = (n, tot)" by simp
  from checkWin_result [OF st sh c] obtain s' where
    s': "checkWin ?s2 = Inr s'" "n = tot \<longrightarrow> status s' = WON" "n \<noteq> tot \<longrightarrow> s' = ?s2"
    by blast
  from a s'(1) have "openAt rnd r c s = Inr s'" by (simp add: openAt_def)
  moreover from s'(2,3) st have "status s' = WON \<longleftrightarrow> n = tot" by auto
  ultimately show "\<exists>s'. openAt rnd r c s = Inr s' \<and> (status s' = WON \<longleftrightarrow> n = tot)
                    \<and> (n \<noteq> tot \<longrightarrow> s' = s1\<lparr>grid := g\<rparr>)"
    using s'(3) by blast
next
  assume a: "status s = RUNNING \<and> chordOpen (grid s) r c = (g, cres) \<and> did cres \<and> \<not> chordHit cres
            \<and> countOpenSafe g = (n, tot)"
  let ?s2 = "s\<lparr>grid := g\<rparr>"
  from a have st: "status ?s2 \<noteq> WON" by simp
  have "map length g = map length (grid s)"
    using a lengths_chordOpen [of "grid s" r c] by simp
  with assms have sh: "shaped (grid ?s2) (state.rows ?s2) (state.cols ?s2)"
    by (simp add: shaped_def)
  from a have c: "countOpenSafe (grid ?s2) = (n, tot)" by simp
  from checkWin_result [OF st sh c] obtain s' where
    s': "checkWin ?s2 = Inr s'" "n = tot \<longrightarrow> status s' = WON" "n \<noteq> tot \<longrightarrow> s' = ?s2"
    by blast
  from a s'(1) have "chordAt r c s = Inr s'" by (simp add: chordAt_def)
  moreover from s'(2,3) st have "status s' = WON \<longleftrightarrow> n = tot" by auto
  ultimately show "\<exists>s'. chordAt r c s = Inr s' \<and> (status s' = WON \<longleftrightarrow> n = tot)
                    \<and> (n \<noteq> tot \<longrightarrow> s' = s\<lparr>grid := g\<rparr>)"
    using s'(3) by blast
next
  show "countOpenSafe g = (length (filter (\<lambda>cl. \<not> mine cl \<and> open cl) (concat g)),
                              length (filter (\<lambda>cl. \<not> mine cl) (concat g)))"
    by (simp add: countOpenSafe_def)
qed

theorem win_when_all_safe_open_witness:
  "shaped (grid (demoState RUNNING)) (state.rows (demoState RUNNING)) (state.cols (demoState RUNNING))
   \<and> ensureMinesPlaced (\<lambda>k. 0) 0 1 (demoState RUNNING) = Inr (demoState RUNNING)
   \<and> openCell (grid (demoState RUNNING)) 0 1 = (demoWon, \<lparr>opened = [(0, 1)], hitMine = False\<rparr>)
   \<and> countOpenSafe demoWon = (1, 1)
   \<and> (\<exists>s'. openAt (\<lambda>k. 0) 0 1 (demoState RUNNING) = Inr s' \<and> status s' = WON)
   \<and> chordOpen demoChord 0 1 = (demoChordWon, \<lparr>did = True, chordHit = False\<rparr>)
   \<and> countOpenSafe demoChordWon = (2, 2)
   \<and> (\<exists>s'. chordAt 0 1 ((demoState RUNNING)\<lparr>grid := demoChord\<rparr>) = Inr s' \<and> status s' = WON)"
proof -
  have sh: "shaped (grid (demoState RUNNING)) (state.rows (demoState RUNNING)) (state.cols (demoState RUNNING))"
    by (simp add: demoState_def demoGrid_def shaped_def)
  have e: "ensureMinesPlaced (\<lambda>k. 0) 0 1 (demoState RUNNING) = Inr (demoState RUNNING)"
    by (simp add: ensureMinesPlaced_def demoState_def)
  have o: "openCell (grid (demoState RUNNING)) 0 1 = (demoWon, \<lparr>opened = [(0, 1)], hitMine = False\<rparr>)"
    by code_simp
  have c: "countOpenSafe demoWon = (1, 1)"
    by code_simp
  have st: "status (demoState RUNNING) \<noteq> WON \<and> status (demoState RUNNING) \<noteq> LOST"
    by (simp add: demoState_def)
  from win_when_all_safe_open [OF sh, of "\<lambda>k. 0" 0 1 "demoState RUNNING" demoWon
      "\<lparr>opened = [(0, 1)], hitMine = False\<rparr>" 1 1] st e o c
  have 1: "\<exists>s'. openAt (\<lambda>k. 0) 0 1 (demoState RUNNING) = Inr s' \<and> status s' = WON"
    by auto
  let ?t = "(demoState RUNNING)\<lparr>grid := demoChord\<rparr>"
  have sh2: "shaped (grid ?t) (state.rows ?t) (state.cols ?t)"
    by (simp add: demoState_def demoChord_def shaped_def)
  have o2: "chordOpen (grid ?t) 0 1 = (demoChordWon, \<lparr>did = True, chordHit = False\<rparr>)"
    by code_simp
  have c2: "countOpenSafe demoChordWon = (2, 2)"
    by code_simp
  have st2: "status ?t = RUNNING" by (simp add: demoState_def)
  from win_when_all_safe_open [OF sh2, of "\<lambda>k. 0" 0 1 "demoState RUNNING" demoChordWon
      "\<lparr>opened = [], hitMine = False\<rparr>" 2 2 "\<lparr>did = True, chordHit = False\<rparr>"] st2 o2 c2
  have 2: "\<exists>s'. chordAt 0 1 ?t = Inr s' \<and> status s' = WON"
    by auto
  from o2 have o2': "chordOpen demoChord 0 1 = (demoChordWon, \<lparr>did = True, chordHit = False\<rparr>)"
    by simp
  from sh e o c 1 o2' c2 2 show ?thesis by blast
qed

section \<open>One placement of mines per game\<close>

text \<open>
  C7: within one game the session calls \<^verbatim>\<open>placeMines\<close> at most once. \<^verbatim>\<open>newGame\<close> sets
  \<^verbatim>\<open>firstClick\<close>; after any sequence of \<^verbatim>\<open>openAt\<close>, \<^verbatim>\<open>flagAt\<close> and \<^verbatim>\<open>chordAt\<close> calls that
  follows it, the number of calls of \<^verbatim>\<open>placeMines\<close> has grown by at most one, and by one
  exactly when the flag has been cleared; \<^verbatim>\<open>ensureMinesPlaced\<close> is a no-op when the flag is
  false, and clears it when it places the mines.
\<close>

theorem placeMines_once_per_game:
  assumes "newGame createEmptyGrid s = Inr s0" and "run xs s0 = Inr s'"
  shows "firstClick s0 \<and> placeCalls s0 = placeCalls s
       \<and> placeCalls s' \<le> placeCalls s0 + 1
       \<and> (\<not> firstClick s' \<longleftrightarrow> placeCalls s' = placeCalls s0 + 1)
       \<and> (\<forall>rnd r c t. \<not> firstClick t \<longrightarrow> ensureMinesPlaced rnd r c t = Inr t)
       \<and> (\<forall>rnd r c t t'. firstClick t \<and> ensureMinesPlaced rnd r c t = Inr t' \<longrightarrow>
             \<not> firstClick t' \<and> placeCalls t' = placeCalls t + 1)"
proof -
  from assms(1) have 0: "firstClick s0 \<and> placeCalls s0 = placeCalls s"
    by (auto simp: newGame_def split: sum.splits)
  from run_calls [OF assms(2)] 0 have
    "placeCalls s' \<le> placeCalls s0 + 1 \<and> (\<not> firstClick s' \<longleftrightarrow> placeCalls s' = placeCalls s0 + 1)"
    by auto
  moreover have "\<forall>rnd r c t. \<not> firstClick t \<longrightarrow> ensureMinesPlaced rnd r c t = Inr t"
    by (simp add: ensureMinesPlaced_def)
  moreover have "\<forall>rnd r c t t'. firstClick t \<and> ensureMinesPlaced rnd r c t = Inr t' \<longrightarrow>
             \<not> firstClick t' \<and> placeCalls t' = placeCalls t + 1"
    using ensureMinesPlaced_calls by auto
  ultimately show ?thesis using 0 by blast
qed

theorem placeMines_once_per_game_witness:
  "newGame createEmptyGrid game5 = Inr game5 \<and> run ops5 game5 = Inr lost5
   \<and> firstClick game5 \<and> \<not> firstClick lost5 \<and> placeCalls lost5 = placeCalls game5 + 1"
proof -
  have a: "newGame createEmptyGrid game5 = Inr game5" by code_simp
  have b: "run ops5 game5 = Inr lost5" by code_simp
  from placeMines_once_per_game [OF a b] have "firstClick game5"
    and "\<not> firstClick lost5 \<longleftrightarrow> placeCalls lost5 = placeCalls game5 + 1"
    by blast+
  moreover have "\<not> firstClick lost5" by code_simp
  ultimately show ?thesis using a b by blast
qed

section \<open>Revealing a mine\<close>

text \<open>
  C8: when \<^verbatim>\<open>openCell\<close> reports \<^verbatim>\<open>hitMine = true\<close> in a running game, \<^verbatim>\<open>openAt\<close> leaves the
  clicked cell open and sets the status to \<^verbatim>\<open>LOST\<close> in the same call, and it reveals no
  safe cell: it opens the mines, and every cell that is not a mine is as it was before.
\<close>

theorem openAt_mine_loses:
  assumes "status s = RUNNING" and "\<not> firstClick s"
    and "shaped (grid s) (state.rows s) (state.cols s)"
    and "openCell (grid s) r c = (g, res)" and "hitMine res"
  shows "\<exists>s'. openAt rnd r c s = Inr s' \<and> status s' = LOST
           \<and> (\<exists>cl. cellAt (grid s') r c = Some cl \<and> open cl \<and> mine cl)
           \<and> (\<forall>r' c'. cellAt (grid s') r' c'
                 = map_option (\<lambda>cl. cl\<lparr>open := open cl \<or> mine cl\<rparr>) (cellAt (grid s) r' c'))
           \<and> (\<forall>r' c' cl. cellAt (grid s) r' c' = Some cl \<and> \<not> mine cl \<longrightarrow>
                 cellAt (grid s') r' c' = Some cl)"
proof -
  from openCell_hit [OF assms(4,5)] obtain cl where
    cl: "cellAt (grid s) r c = Some cl" "mine cl" and g: "g = setCell (grid s) r c (cl\<lparr>open := True\<rparr>)"
    by blast
  have gc: "cellAt g r' c' = (if r' = r \<and> c' = c then Some (cl\<lparr>open := True\<rparr>) else cellAt (grid s) r' c')"
    for r' c'
    by (simp add: g cellAt_setCell [OF cl(1)])
  let ?g2 = "setCell g r c (cl\<lparr>open := True\<rparr>)"
  have m: "markOpen g r c = Inr ?g2"
    by (simp add: markOpen_def gc)
  have g2c: "cellAt ?g2 r' c' = cellAt g r' c'" for r' c'
    using cellAt_setCell [of g r c "cl\<lparr>open := True\<rparr>"] gc by simp
  let ?s2 = "s\<lparr>grid := ?g2\<rparr>"
  have "shaped (grid ?s2) (state.rows ?s2) (state.cols ?s2)"
    using assms(3) by (simp add: g shaped_def lengths_setCell)
  from gameOver_cells [OF this, of False] obtain g3 where
    3: "gameOver False ?s2 = Inr (?s2\<lparr>status := LOST, grid := g3\<rparr>)"
    and g3c: "\<And>r' c'. cellAt g3 r' c' = map_option (reveal False) (cellAt ?g2 r' c')"
    by auto
  have o: "openAt rnd r c s = Inr (?s2\<lparr>status := LOST, grid := g3\<rparr>)"
    using assms(1,2,4,5) m 3 by (simp add: openAt_def ensureMinesPlaced_def)
  have all: "cellAt g3 r' c' = map_option (\<lambda>cl. cl\<lparr>open := open cl \<or> mine cl\<rparr>) (cellAt (grid s) r' c')"
    for r' c'
    using cl by (auto simp: g3c g2c gc reveal_def [abs_def])
  have "\<exists>cl'. cellAt g3 r c = Some cl' \<and> open cl' \<and> mine cl'"
    using cl by (simp add: all)
  moreover have "cellAt g3 r' c' = Some cl'" if "cellAt (grid s) r' c' = Some cl'" "\<not> mine cl'" for r' c' cl'
    using that by (simp add: all)
  ultimately show ?thesis using o all by auto
qed

theorem openAt_mine_loses_witness:
  "status (demoState RUNNING) = RUNNING \<and> \<not> firstClick (demoState RUNNING)
   \<and> shaped (grid (demoState RUNNING)) (state.rows (demoState RUNNING)) (state.cols (demoState RUNNING))
   \<and> hitMine (snd (openCell (grid (demoState RUNNING)) 0 2))
   \<and> (\<exists>s'. openAt (\<lambda>k. 0) 0 2 (demoState RUNNING) = Inr s' \<and> status s' = LOST
         \<and> cellAt (grid s') 0 1 = Some \<lparr>mine = False, open = False, flag = False, num = 1\<rparr>)"
proof -
  have sh: "shaped (grid (demoState RUNNING)) (state.rows (demoState RUNNING)) (state.cols (demoState RUNNING))"
    by (simp add: demoState_def demoGrid_def shaped_def)
  have st: "status (demoState RUNNING) = RUNNING" "\<not> firstClick (demoState RUNNING)"
    by (simp_all add: demoState_def)
  obtain g res where o: "openCell (grid (demoState RUNNING)) 0 2 = (g, res)"
    by (cases "openCell (grid (demoState RUNNING)) 0 2")
  have h: "hitMine (snd (openCell (grid (demoState RUNNING)) 0 2))"
    by code_simp
  with o have h': "hitMine res" by simp
  have c: "cellAt (grid (demoState RUNNING)) 0 1 = Some \<lparr>mine = False, open = False, flag = False, num = 1\<rparr>"
    by code_simp
  from openAt_mine_loses [OF st sh o h', of "\<lambda>k. 0"] c
  have "\<exists>s'. openAt (\<lambda>k. 0) 0 2 (demoState RUNNING) = Inr s' \<and> status s' = LOST
         \<and> cellAt (grid s') 0 1 = Some \<lparr>mine = False, open = False, flag = False, num = 1\<rparr>"
    by auto
  with sh st h show ?thesis by blast
qed

section \<open>The flood fill\<close>




section \<open>The first reveal\<close>

text \<open>
  C1 as amended: in every fresh game the session reaches (status \<^verbatim>\<open>READY\<close>, \<^verbatim>\<open>firstClick\<close>
  true), the first \<^verbatim>\<open>openAt(r, c)\<close> first calls \<^verbatim>\<open>placeMines\<close> with \<^verbatim>\<open>(r, c)\<close> as the safe cell,
  which succeeds and leaves that cell without a mine, and only then reveals the cell with
  \<^verbatim>\<open>openCell\<close> on the grid with the mines and checks for a win; no mine is hit, the game
  is not lost, and no cell that is open afterwards is a mine. When the clicked cell is on the
  grid and not flagged, it is the first cell this request reveals, and it is open afterwards:
  the first cell revealed in the game is then not a mine. When the clicked cell is flagged
  or off the grid, the request places the mines and reveals nothing.
\<close>

theorem first_reveal_safe:
  assumes "reachable s" and "status s = READY" and "firstClick s"
  shows "\<exists>g1 s'. placeMines rnd (grid s) (state.mines s) r c = Inr g1
           \<and> \<not> isMineAt g1 (r, c)
           \<and> \<not> hitMine (snd (openCell g1 r c))
           \<and> checkWin (s\<lparr>grid := fst (openCell g1 r c), firstClick := False, status := RUNNING,
                          placeCalls := Suc (placeCalls s)\<rparr>) = Inr s'
           \<and> openAt rnd r c s = Inr s'
           \<and> status s' \<noteq> LOST
           \<and> (\<forall>r' c' cl. cellAt (grid s') r' c' = Some cl \<and> open cl \<longrightarrow> \<not> mine cl)
           \<and> (\<forall>cl. cellAt (grid s) r c = Some cl \<and> \<not> flag cl \<longrightarrow>
                 (\<exists>os. opened (snd (openCell g1 r c)) = (r, c) # os)
                 \<and> (\<exists>cl'. cellAt (grid s') r c = Some cl' \<and> open cl' \<and> \<not> mine cl'))
           \<and> (cellAt (grid s) r c = None \<or> (\<exists>cl. cellAt (grid s) r c = Some cl \<and> flag cl) \<longrightarrow>
                 openCell g1 r c = (g1, \<lparr>opened = [], hitMine = False\<rparr>))"
proof -
  from reachable_inv [OF assms(1)] have i: "sessionInv s" .
  then have sh: "shaped (grid s) (state.rows s) (state.cols s)"
    and b: "0 \<le> state.rows s" "0 \<le> state.cols s"
      "state.mines s \<le> state.rows s * state.cols s - 9"
    and fresh: "\<forall>r c cl. cellAt (grid s) r c = Some cl \<longrightarrow> \<not> open cl \<and> \<not> mine cl"
    using assms(2) by (auto simp: sessionInv_def)
  from placeMines_total [OF sh b] obtain g1 where
    p: "placeMines rnd (grid s) (state.mines s) r c = Inr g1"
    by blast
  from fresh have "\<forall>r' c' cl. cellAt (grid s) r' c' = Some cl \<longrightarrow> \<not> mine cl" by blast
  from placeMines_clicked_safe [OF p this] have nm: "\<not> isMineAt g1 (r, c)" .
  let ?s1 = "s\<lparr>grid := g1, firstClick := False, status := RUNNING,
                placeCalls := Suc (placeCalls s)\<rparr>"
  from p assms(3) have e: "ensureMinesPlaced rnd r c s = Inr ?s1"
    by (simp add: ensureMinesPlaced_def)
  have closed1: "\<not> open cl'" if "cellAt g1 r' c' = Some cl'" for r' c' cl'
  proof (cases "cellAt (grid s) r' c'")
    case None
    from placeMines_cell(1) [OF p None] that show ?thesis by simp
  next
    case (Some cl)
    from placeMines_cell(2) [OF p Some] that fresh Some show ?thesis by auto
  qed
  then have so1: "safeOpen g1" by (auto simp: safeOpen_def)
  obtain g res where o: "openCell g1 r c = (g, res)" by (cases "openCell g1 r c")
  have nh: "\<not> hitMine res"
  proof
    assume "hitMine res"
    from openCell_hit [OF o this] nm show False by (auto simp: isMineAt_def)
  qed
  from openCell_opensTo [OF o] nh have "opensTo True g1 g" by simp
  from opensTo_safeOpen [OF this so1] have so: "safeOpen g" .
  let ?s2 = "s\<lparr>grid := g, firstClick := False, status := RUNNING,
                placeCalls := Suc (placeCalls s)\<rparr>"
  have lg: "map length g = map length (grid s)"
    using lengths_openCell [of g1 r c] o lengths_placeMines [OF p] by simp
  with sh have sh2: "shaped (grid ?s2) (state.rows ?s2) (state.cols ?s2)"
    by (simp add: shaped_def)
  have "\<exists>s'. checkWin ?s2 = Inr s' \<and> status s' \<noteq> LOST \<and> safeOpen (grid s')
          \<and> (\<forall>r' c' cl. cellAt g r' c' = Some cl \<and> open cl \<longrightarrow>
                (\<exists>cl'. cellAt (grid s') r' c' = Some cl' \<and> open cl'))"
  proof (cases "fst (countOpenSafe g) = snd (countOpenSafe g)")
    case False
    then have "checkWin ?s2 = Inr ?s2"
      by (cases "countOpenSafe g") (simp add: checkWin_def)
    with so show ?thesis by simp
  next
    case True
    from gameOver_cells [OF sh2, of True] obtain g' where
      go: "gameOver True ?s2 = Inr (?s2\<lparr>status := WON, grid := g'\<rparr>)"
      and c: "\<And>r' c'. cellAt g' r' c' = map_option (reveal True) (cellAt g r' c')"
      by auto
    from True go have cw: "checkWin ?s2 = Inr (?s2\<lparr>status := WON, grid := g'\<rparr>)"
      by (cases "countOpenSafe g") (simp add: checkWin_def)
    have "safeOpen g'"
      unfolding safeOpen_def
    proof (intro allI impI)
      fix r' c' cl'
      assume a: "cellAt g' r' c' = Some cl' \<and> open cl'"
      with c [of r' c'] obtain cl where cl: "cellAt g r' c' = Some cl" "cl' = reveal True cl"
        by (cases "cellAt g r' c'") auto
      with a so show "\<not> mine cl'" by (auto simp: reveal_def safeOpen_def)
    qed
    moreover have "\<exists>cl'. cellAt g' r' c' = Some cl' \<and> open cl'"
      if "cellAt g r' c' = Some cl \<and> open cl" for r' c' cl
      using that c [of r' c'] by (simp add: reveal_def)
    ultimately show ?thesis using cw by simp blast
  qed
  then obtain s' where cw: "checkWin ?s2 = Inr s'" and st: "status s' \<noteq> LOST"
    and sf: "safeOpen (grid s')"
    and keep: "\<And>r' c' cl. cellAt g r' c' = Some cl \<and> open cl \<Longrightarrow>
                 \<exists>cl'. cellAt (grid s') r' c' = Some cl' \<and> open cl'"
    by blast
  have eq: "?s1\<lparr>grid := g\<rparr> = ?s2" by (cases s) simp
  from assms(2) e o nh have "openAt rnd r c s = checkWin (?s1\<lparr>grid := g\<rparr>)"
    by (simp add: openAt_def)
  then have oa: "openAt rnd r c s = Inr s'"
    unfolding eq cw .
  from sf have sm: "\<forall>r' c' cl. cellAt (grid s') r' c' = Some cl \<and> open cl \<longrightarrow> \<not> mine cl"
    by (simp add: safeOpen_def)
  have first: "(\<exists>os. opened (snd (openCell g1 r c)) = (r, c) # os)
               \<and> (\<exists>cl'. cellAt (grid s') r c = Some cl' \<and> open cl' \<and> \<not> mine cl')"
    if "cellAt (grid s) r c = Some cl \<and> \<not> flag cl" for cl
  proof -
    from that placeMines_cell(2) [OF p, of r c cl] obtain cl1 where
      c1: "cellAt g1 r c = Some cl1" and f1: "\<not> flag cl1"
      by auto
    from closed1 [OF c1] have o1: "\<not> open cl1" .
    from nm c1 have m1: "\<not> mine cl1" by (simp add: isMineAt_def)
    from openCell_first [OF c1 o1 f1 m1] obtain os where
      os: "opened (snd (openCell g1 r c)) = (r, c) # os"
      by blast
    from openCell_closed_safe [OF c1 o1 f1 m1 o] have
      "set (opened res) = reach g1 {(r, c)}" and "openSet (reach g1 {(r, c)}) g1 g"
      by simp_all
    with os o c1 have "cellAt g r c = Some (cl1\<lparr>open := True\<rparr>)"
      by (auto simp: openSet_def)
    from keep [of r c "cl1\<lparr>open := True\<rparr>"] this obtain cl' where
      "cellAt (grid s') r c = Some cl'" "open cl'"
      by auto
    with sm os show ?thesis by blast
  qed
  have noop: "openCell g1 r c = (g1, \<lparr>opened = [], hitMine = False\<rparr>)"
    if "cellAt (grid s) r c = None \<or> (\<exists>cl. cellAt (grid s) r c = Some cl \<and> flag cl)"
  proof (rule openCell_noop)
    from that show "cellAt g1 r c = None \<or> (\<exists>cl. cellAt g1 r c = Some cl \<and> flag cl)"
    proof
      assume "cellAt (grid s) r c = None"
      from placeMines_cell(1) [OF p this] show ?thesis by simp
    next
      assume "\<exists>cl. cellAt (grid s) r c = Some cl \<and> flag cl"
      then obtain cl where "cellAt (grid s) r c = Some cl" "flag cl" by blast
      with placeMines_cell(2) [OF p, of r c cl] show ?thesis by auto
    qed
  qed
  from p nm nh o cw oa st sm first noop show ?thesis
    by (intro exI [of _ g1] exI [of _ s']) (simp, blast)
qed

theorem first_reveal_safe_witness:
  "reachable game5 \<and> status game5 = READY \<and> firstClick game5
   \<and> cellAt (grid game5) 4 4 = Some emptyCell \<and> \<not> flag emptyCell
   \<and> (\<exists>s' os. openAt rnd5 4 4 game5 = Inr s' \<and> status s' \<noteq> LOST
         \<and> (\<exists>g1. placeMines rnd5 (grid game5) (state.mines game5) 4 4 = Inr g1
               \<and> opened (snd (openCell g1 4 4)) = (4, 4) # os))
   \<and> flagAt 4 4 game5 = Inr (game5\<lparr>grid := fst (toggleFlag (grid game5) 4 4)\<rparr>)
   \<and> cellAt (fst (toggleFlag (grid game5) 4 4)) 4 4 = Some (emptyCell\<lparr>flag := True\<rparr>)
   \<and> (\<exists>g1. placeMines rnd5 (fst (toggleFlag (grid game5) 4 4)) (state.mines game5) 4 4 = Inr g1
         \<and> openCell g1 4 4 = (g1, \<lparr>opened = [], hitMine = False\<rparr>))"
proof -
  have st: "status game5 = READY" "firstClick game5" by code_simp+
  have c: "cellAt (grid game5) 4 4 = Some emptyCell" "\<not> flag emptyCell" by code_simp+
  from first_reveal_safe [OF reachable_game5 st, of rnd5 4 4] c
  have 1: "\<exists>s' os. openAt rnd5 4 4 game5 = Inr s' \<and> status s' \<noteq> LOST
         \<and> (\<exists>g1. placeMines rnd5 (grid game5) (state.mines game5) 4 4 = Inr g1
               \<and> opened (snd (openCell g1 4 4)) = (4, 4) # os)"
    by blast
  let ?sf = "game5\<lparr>grid := fst (toggleFlag (grid game5) 4 4)\<rparr>"
  have f: "flagAt 4 4 game5 = Inr ?sf" by code_simp
  then have "perform (FlagAt 4 4) game5 = Inr ?sf" by simp
  with reachable_game5 have r: "reachable ?sf" by (rule reachable.call)
  have stf: "status ?sf = READY" "firstClick ?sf" using st by simp_all
  have cf: "cellAt (grid ?sf) 4 4 = Some (emptyCell\<lparr>flag := True\<rparr>)" by code_simp
  then have "cellAt (grid ?sf) 4 4 = None
             \<or> (\<exists>cl. cellAt (grid ?sf) 4 4 = Some cl \<and> flag cl)"
    by simp
  with first_reveal_safe [OF r stf, of rnd5 4 4]
  have "\<exists>g1. placeMines rnd5 (grid ?sf) (state.mines ?sf) 4 4 = Inr g1
         \<and> openCell g1 4 4 = (g1, \<lparr>opened = [], hitMine = False\<rparr>)"
    by blast
  then have 2: "\<exists>g1. placeMines rnd5 (fst (toggleFlag (grid game5) 4 4)) (state.mines game5) 4 4 = Inr g1
         \<and> openCell g1 4 4 = (g1, \<lparr>opened = [], hitMine = False\<rparr>)"
    by simp
  from cf have 3: "cellAt (fst (toggleFlag (grid game5) 4 4)) 4 4 = Some (emptyCell\<lparr>flag := True\<rparr>)"
    by simp
  from reachable_game5 st c 1 f 2 3 show ?thesis by blast
qed

text \<open>
  C1 as stated fails when the first click is on a flagged cell. On the board of 5 by 5 with
  3 mines, flag (4, 4) and click it: \<^verbatim>\<open>placeMines\<close> puts the mines on (0, 1), (1, 0) and
  (1, 1), \<^verbatim>\<open>openCell\<close> leaves the flagged cell alone, and no cell is open. The next click, on
  (0, 1), reveals a mine: the first cell revealed in this game is a mine, and the game is
  lost.
\<close>

theorem first_revealed_cell_is_mine:
  "reachable game5 \<and> status game5 = READY \<and> firstClick game5
   \<and> run [FlagAt 4 4, OpenAt rnd5 4 4] game5 = Inr flagged5
   \<and> filter open (concat (grid flagged5)) = []
   \<and> isMineAt (grid flagged5) (0, 1)
   \<and> opened (snd (openCell (grid flagged5) 0 1)) = [(0, 1)]
   \<and> hitMine (snd (openCell (grid flagged5) 0 1))
   \<and> map_sum id status (openAt rnd5 0 1 flagged5) = Inr LOST"
proof -
  have 1: "status game5 = READY" "firstClick game5" by code_simp+
  have 2: "run [FlagAt 4 4, OpenAt rnd5 4 4] game5 = Inr flagged5" by code_simp
  have 3: "filter open (concat (grid flagged5)) = []" by code_simp
  have 4: "isMineAt (grid flagged5) (0, 1)" by code_simp
  have 5: "opened (snd (openCell (grid flagged5) 0 1)) = [(0, 1)]" by code_simp
  have 6: "hitMine (snd (openCell (grid flagged5) 0 1))" by code_simp
  have 7: "map_sum id status (openAt rnd5 0 1 flagged5) = Inr LOST" by code_simp
  from reachable_game5 1 2 3 4 5 6 7 show ?thesis by blast
qed

section \<open>Open and flagged cells\<close>

text \<open>
  C3 as amended: in every state the session reaches through \<^verbatim>\<open>applyConfig\<close>, \<^verbatim>\<open>newGame\<close>,
  \<^verbatim>\<open>openAt\<close>, \<^verbatim>\<open>flagAt\<close> and \<^verbatim>\<open>chordAt\<close> (and \<^verbatim>\<open>gameOver\<close> within them), a cell that is open
  and flagged at once is a mine, and the game is lost: while the status is \<^verbatim>\<open>READY\<close>,
  \<^verbatim>\<open>RUNNING\<close> or \<^verbatim>\<open>WON\<close> no cell is open and flagged, and a cell that is not a mine never is.
\<close>

theorem open_flagged_only_lost_mine:
  assumes "reachable s" and "cellAt (grid s) r c = Some cl" and "open cl" and "flag cl"
  shows "mine cl \<and> status s = LOST"
  using reachable_inv [OF assms(1)] assms(2-4) unfolding sessionInv_def by blast

theorem open_flagged_only_lost_mine_witness:
  "reachable lost5
   \<and> cellAt (grid lost5) 0 1 = Some \<lparr>mine = True, open = True, flag = True, num = 0\<rparr>
   \<and> status lost5 = LOST"
proof -
  have c: "cellAt (grid lost5) 0 1 = Some \<lparr>mine = True, open = True, flag = True, num = 0\<rparr>"
    by code_simp
  from open_flagged_only_lost_mine [OF reachable_lost5 c] have "status lost5 = LOST" by simp
  with reachable_lost5 c show ?thesis by blast
qed

text \<open>
  C3 as stated fails after a loss: \<^verbatim>\<open>gameOver(false)\<close> opens every mine and leaves its flag.
  On a board of 5 by 5 with 3 mines, flag (0, 1), click (4, 4) with the mines placed on
  (0, 1), (1, 0) and (1, 1), then click the mine at (1, 0): the flagged mine at (0, 1) is
  open and flagged.
\<close>

theorem reachable_open_and_flagged:
  "reachable lost5
   \<and> cellAt (grid lost5) 0 1 = Some \<lparr>mine = True, open = True, flag = True, num = 0\<rparr>"
proof -
  have "cellAt (grid lost5) 0 1 = Some \<lparr>mine = True, open = True, flag = True, num = 0\<rparr>"
    by code_simp
  with reachable_lost5 show ?thesis by blast
qed

end
